theory Spec2Isabelle
  imports Main "HOL-Library.Word" "HOL-Library.Multiset"
begin

unbundle bit_operations_syntax

section \<open>Permission resolution (common/drive_utils.go)\<close>

subsection \<open>Rules\<close>

text \<open>
  Modelled from the spec: the package \<open>types\<close> that declares \<open>PathPermission\<close> and
  \<open>Permission\<close> is not among the sources. The spec's data model gives a rule a
  \<open>depth\<close>, a \<open>subject\<close> (Anonymous, User(id) or Group(id)), a \<open>policy\<close> (an ordinal),
  a \<open>permission\<close> bitmask and a \<open>mode\<close> read through \<open>IsAccept()\<close> and \<open>IsReject()\<close>,
  which are checked independently and may both hold for one rule. The mode is therefore
  kept as two flags. The width of the bitmask is left open: a rule is a record over
  \<open>'a word\<close> for any length \<open>'a\<close>.
\<close>

datatype subject = Anonymous | User nat | Group nat

record 'p PathPermission =
  Depth :: nat
  Subject :: subject
  Policy :: int
  Permission :: 'p
  Accept :: bool
  Reject :: bool

definition PermissionEmpty :: "'a::len word" where
  "PermissionEmpty = 0"

definition IsForAnonymous :: "'p PathPermission \<Rightarrow> bool" where
  "IsForAnonymous p = (Subject p = Anonymous)"

definition IsForUser :: "'p PathPermission \<Rightarrow> bool" where
  "IsForUser p = (case Subject p of User u \<Rightarrow> True | _ \<Rightarrow> False)"

definition IsAccept :: "'p PathPermission \<Rightarrow> bool" where
  "IsAccept p = Accept p"

definition IsReject :: "'p PathPermission \<Rightarrow> bool" where
  "IsReject p = Reject p"

subsection \<open>The comparison\<close>

definition pathPermissionLess :: "'p PathPermission \<Rightarrow> 'p PathPermission \<Rightarrow> bool" where
  "pathPermissionLess a b =
     (if Depth a \<noteq> Depth b then Depth a > Depth b
      else if IsForAnonymous a then
        (if IsForAnonymous b then Policy a < Policy b else False)
      else
        (if IsForAnonymous b then True
         else if IsForUser a then
           (if IsForUser b then Policy a < Policy b else True)
         else
           (if IsForUser b then False else Policy a < Policy b)))"

subsection \<open>sort.Slice\<close>

text \<open>
  \<open>sort.Slice\<close> is Go's library sort; it rearranges the slice in place and is not
  guaranteed to be stable. On a slice of at most twelve elements it ends in a plain
  insertion sort:
  \<^verbatim>\<open>for i := a + 1; i < b; i++ {
    for j := i; j > a && less(data[j], data[j-1]); j-- { swap(j, j-1) } }\<close>
  (since Go 1.19 that is all it runs there; before, a slice of seven to twelve elements
  first gets one pass that swaps out-of-order elements six places apart). On a longer
  slice it runs a quicksort, which also ends in an arrangement that is in order; which
  of the arrangements of tied elements it ends in is not specified.
  \<open>insertBack\<close> is the inner loop: the prefix \<open>data[a..i)\<close> is held in reverse, nearest
  neighbour first, and the new element moves left past every neighbour it is less than.
  The lemmas on the fold below are proved for every arrangement of the rules that is in
  order, so they do not depend on which sorted arrangement a slice ends in; where a
  statement speaks of the arrangement itself it is about short slices.
\<close>

fun insertBack :: "('a \<Rightarrow> 'a \<Rightarrow> bool) \<Rightarrow> 'a \<Rightarrow> 'a list \<Rightarrow> 'a list" where
  "insertBack lt x [] = [x]"
| "insertBack lt x (y # rs) =
     (if lt x y then y # insertBack lt x rs else x # y # rs)"

definition insertionSort :: "('a \<Rightarrow> 'a \<Rightarrow> bool) \<Rightarrow> 'a list \<Rightarrow> 'a list" where
  "insertionSort lt xs = rev (fold (insertBack lt) xs [])"

definition sortSlice :: "('a \<Rightarrow> 'a \<Rightarrow> bool) \<Rightarrow> 'a list \<Rightarrow> 'a list" where
  "sortSlice lt items = insertionSort lt items"

text \<open>A slice is in order when no later element is less than an earlier one.\<close>

definition inOrder :: "('a \<Rightarrow> 'a \<Rightarrow> bool) \<Rightarrow> 'a list \<Rightarrow> bool" where
  "inOrder lt xs = sorted_wrt (\<lambda>a b. \<not> lt b a) xs"

subsection \<open>The fold\<close>

text \<open>
  One iteration of the loop over the sorted rules, on the pair
  \<open>(acceptedPermission, rejectedPermission)\<close>. The two tests are two separate \<open>if\<close>
  statements, so a rule that is both Accept and Reject runs both branches, the Accept
  branch first.
\<close>

definition resolveStep ::
  "'a::len word PathPermission \<Rightarrow> 'a word \<times> 'a word \<Rightarrow> 'a word \<times> 'a word" where
  "resolveStep item st =
     (let acceptedPermission = fst st;
          rejectedPermission = snd st;
          acceptedPermission =
            (if IsAccept item
             then acceptedPermission OR (Permission item AND NOT rejectedPermission)
             else acceptedPermission)
      in if IsReject item
         then (acceptedPermission AND NOT (Permission item AND NOT acceptedPermission),
               rejectedPermission OR Permission item)
         else (acceptedPermission, rejectedPermission))"

fun resolveLoop ::
  "'a::len word PathPermission list \<Rightarrow> 'a word \<times> 'a word \<Rightarrow> 'a word \<times> 'a word" where
  "resolveLoop [] st = st"
| "resolveLoop (item # items) st = resolveLoop items (resolveStep item st)"

text \<open>
  \<open>ResolveAcceptedPermissions\<close> sorts the slice it is given, in place, and then folds
  it. The slice shares its backing array with the caller, so the model returns the
  slice as the call leaves it together with the mask.
\<close>

definition ResolveAcceptedPermissions ::
  "'a::len word PathPermission list \<Rightarrow> 'a word PathPermission list \<times> 'a word" where
  "ResolveAcceptedPermissions items =
     (let items = sortSlice pathPermissionLess items
      in (items, fst (resolveLoop items (PermissionEmpty, PermissionEmpty))))"


subsection \<open>Ties and example rules\<close>

text \<open>Two rules tie when the comparison puts neither first.\<close>

definition tied :: "'p PathPermission \<Rightarrow> 'p PathPermission \<Rightarrow> bool" where
  "tied a b = (\<not> pathPermissionLess a b \<and> \<not> pathPermissionLess b a)"

text \<open>
  Modelled from the spec: the capability constants are declared in the absent package
  \<open>types\<close>; \<open>READ\<close> and \<open>WRITE\<close> are taken as the two lowest bits of an 8-bit mask.
\<close>

definition READ :: "8 word" where
  "READ = 1"

definition WRITE :: "8 word" where
  "WRITE = 2"

text \<open>The two-rule input of the spec's permanent-reject example.\<close>

definition exampleRules :: "8 word PathPermission list" where
  "exampleRules =
     [\<lparr>Depth = 2, Subject = Anonymous, Policy = 1, Permission = READ OR WRITE,
        Accept = True, Reject = False\<rparr>,
      \<lparr>Depth = 1, Subject = User 1, Policy = 0, Permission = WRITE,
        Accept = False, Reject = True\<rparr>]"

text \<open>Two rules that tie on depth, subject class and policy and differ in mode.\<close>

definition acceptRead :: "8 word PathPermission" where
  "acceptRead = \<lparr>Depth = 1, Subject = Anonymous, Policy = 0, Permission = READ,
     Accept = True, Reject = False\<rparr>"

definition rejectRead :: "8 word PathPermission" where
  "rejectRead = \<lparr>Depth = 1, Subject = Anonymous, Policy = 0, Permission = READ,
     Accept = False, Reject = True\<rparr>"

text \<open>Two Accept rules of the same subject and different policies; they do not tie.\<close>

definition userAccept :: "int \<Rightarrow> 8 word \<Rightarrow> 8 word PathPermission" where
  "userAccept pol perm = \<lparr>Depth = 1, Subject = User 1, Policy = pol, Permission = perm,
     Accept = True, Reject = False\<rparr>"

text \<open>A Group rule, for comparing subject classes.\<close>

definition groupReject :: "8 word PathPermission" where
  "groupReject = \<lparr>Depth = 1, Subject = Group 1, Policy = 0, Permission = WRITE,
     Accept = False, Reject = True\<rparr>"

section \<open>Cross-drive copy (common/drive_utils.go)\<close>

subsection \<open>Entries, errors and the copy tree\<close>

text \<open>
  Modelled from the spec: \<open>types.IEntry\<close>, \<open>types.EntryType\<close> and the error
  constructors are declared outside the sources. An entry has a name, a path and a type
  that is File or Directory; \<open>IsContent\<close> says whether the entry also implements
  \<open>types.IContent\<close> (the type assertion in \<open>copyAll\<close>). Errors are values; a "not
  found" lookup error is told apart by \<open>IsNotFoundError\<close>.
\<close>

datatype EntryType = TypeFile | TypeDir

datatype error =
  ErrorCanceled
  | NotFoundError
  | NotAllowedError string
  | UnsupportedError
  | OtherError string

definition IsNotFoundError :: "error \<Rightarrow> bool" where
  "IsNotFoundError e = (e = NotFoundError)"

record entry =
  Name :: string
  Path :: string
  Type :: EntryType
  IsContent :: bool

datatype EntryNode = EntryNode entry "EntryNode list"

text \<open>
  Modelled from the spec: \<open>CleanPath(path.Join(to, name))\<close> on a normalised
  destination path (no leading or trailing slash) and a single-segment name.
\<close>

definition joinPath :: "string \<Rightarrow> string \<Rightarrow> string" where
  "joinPath to name = (if to = [] then name else to @ ''/'' @ name)"

subsection \<open>The environment of a copy\<close>

text \<open>
  \<open>copyAll\<close> works on three collaborators it is handed: the destination drive
  \<open>driveTo\<close>, the task context \<open>ctx\<close> and the callback \<open>after\<close>; it also stages file
  content through \<open>CopyIContentToTempFile\<close>, which reads the source over the network or
  the file system. All of them are parameters of the model, acting on a world \<open>'w\<close>
  that holds whatever they read and write: \<open>Canceled\<close> and \<open>Get\<close> read it, the others
  may change it. The calls the claims speak about are logged in a trace:
  \<open>ctx.Progress\<close> (the only effect of which is the report), the callback with its
  arguments and its result, \<open>MakeDir\<close>, the staging and \<open>Save\<close>. The nested
  operations receive \<open>ctxWrapper{ctx}\<close>, whose \<open>Progress\<close> and \<open>Total\<close> do nothing, so
  they add no report.
\<close>

datatype event =
  EvProgress int
  | EvAfter entry bool "error option"
  | EvMakeDir string
  | EvStage entry
  | EvSave string string

record 'w env =
  ctxCanceled :: "'w \<Rightarrow> bool"
  driveGet :: "string \<Rightarrow> 'w \<Rightarrow> error + EntryType"
  driveMakeDir :: "string \<Rightarrow> 'w \<Rightarrow> error option \<times> 'w"
  driveSave :: "string \<Rightarrow> string \<Rightarrow> 'w \<Rightarrow> error option \<times> 'w"
  stageContent :: "entry \<Rightarrow> 'w \<Rightarrow> (error + string) \<times> 'w"
  after :: "entry \<Rightarrow> bool \<Rightarrow> 'w \<Rightarrow> error option \<times> 'w"

record 'w state =
  world :: 'w
  trace :: "event list"

definition logEvent :: "event \<Rightarrow> 'w state \<Rightarrow> 'w state" where
  "logEvent ev st = st\<lparr>trace := trace st @ [ev]\<rparr>"

subsection \<open>copyAll\<close>

text \<open>
  The destination probe at the head of \<open>copyAll\<close>: \<open>Inr None\<close> when the destination
  is taken not to exist (a fresh parent, or a "not found" lookup), \<open>Inr (Some t)\<close> when
  it exists with type \<open>t\<close>, \<open>Inl e\<close> when the lookup fails otherwise.
\<close>

definition probeDst :: "'w env \<Rightarrow> string \<Rightarrow> bool \<Rightarrow> 'w \<Rightarrow> error + EntryType option" where
  "probeDst env to newParent w =
     (if newParent then Inr None
      else (case driveGet env to w of
              Inl e \<Rightarrow> if IsNotFoundError e then Inr None else Inl e
            | Inr dstType \<Rightarrow> Inr (Some dstType)))"

definition sq :: string where
  "sq = [CHR 0x27]"

text \<open>
  The head of the directory branch: the type conflict, or \<open>MakeDir\<close> when the
  destination does not exist. \<open>Inr dirCreate\<close> goes on to the children.
\<close>

definition prepareDir ::
  "'w env \<Rightarrow> entry \<Rightarrow> string \<Rightarrow> EntryType option \<Rightarrow> 'w state \<Rightarrow> (error + bool) \<times> 'w state" where
  "prepareDir env entry to dst st =
     (case dst of
        Some dstType \<Rightarrow>
          (if dstType = TypeFile
           then (Inl (NotAllowedError (''dest '' @ sq @ to @ sq @ '' is a file, but src '' @
                   sq @ Path entry @ sq @ '' is a dir'')), st)
           else (Inr False, st))
      | None \<Rightarrow>
          (case driveMakeDir env to (world st) of
             (Some e, w) \<Rightarrow> (Inl e, logEvent (EvMakeDir to) (st\<lparr>world := w\<rparr>))
           | (None, w) \<Rightarrow> (Inr True, logEvent (EvMakeDir to) (st\<lparr>world := w\<rparr>))))"

text \<open>
  The file branch up to and including \<open>Save\<close>. \<open>Inl r\<close> is an early \<open>return r\<close> (a
  type conflict, the skip, an entry without content, a staging or a save error);
  \<open>Inr ()\<close> goes on to the callback. The staged temporary file is a local of this
  branch and is removed on every way out; only its bytes are kept here.
\<close>

definition copyFile ::
  "'w env \<Rightarrow> entry \<Rightarrow> string \<Rightarrow> bool \<Rightarrow> EntryType option \<Rightarrow> int \<Rightarrow> 'w state \<Rightarrow>
     ((int \<times> bool \<times> error option) + unit) \<times> 'w state" where
  "copyFile env entry to override dst processed st =
     (if dst = Some TypeDir
      then (Inl (processed, False, Some (NotAllowedError (''dest '' @ sq @ to @ sq @
              '' is a dir, but src '' @ sq @ Path entry @ sq @ '' is a file''))), st)
      else if dst \<noteq> None \<and> \<not> override
      then (Inl (processed + 1, False, None), st)
      else if \<not> IsContent entry
      then (Inl (processed, False, Some (NotAllowedError (''file '' @ sq @ Path entry @ sq @
              '' is not readable''))), st)
      else (case stageContent env entry (world st) of
              (Inl e, w) \<Rightarrow>
                (Inl (processed, False, Some e), logEvent (EvStage entry) (st\<lparr>world := w\<rparr>))
            | (Inr file, w) \<Rightarrow>
                (case driveSave env to file w of
                   (Some e, w') \<Rightarrow>
                     (Inl (processed, False, Some e),
                      logEvent (EvSave to file) (logEvent (EvStage entry) (st\<lparr>world := w'\<rparr>)))
                 | (None, w') \<Rightarrow>
                     (Inr (),
                      logEvent (EvSave to file) (logEvent (EvStage entry) (st\<lparr>world := w'\<rparr>))))))"

text \<open>The tail of \<open>copyAll\<close>: the callback, then the count and its report.\<close>

definition finishNode ::
  "'w env \<Rightarrow> entry \<Rightarrow> bool \<Rightarrow> int \<Rightarrow> 'w state \<Rightarrow> (int \<times> bool \<times> error option) \<times> 'w state" where
  "finishNode env entry allProcessed processed st =
     (case after env entry allProcessed (world st) of
        (Some e, w) \<Rightarrow>
          ((processed, False, Some e),
           logEvent (EvAfter entry allProcessed (Some e)) (st\<lparr>world := w\<rparr>))
      | (None, w) \<Rightarrow>
          ((processed + 1, allProcessed, None),
           logEvent (EvProgress (processed + 1))
             (logEvent (EvAfter entry allProcessed None) (st\<lparr>world := w\<rparr>))))"

text \<open>
  \<open>copyAll\<close> and its loop over the children. Every call starts its own count
  \<open>processed\<close> at 0 and is handed the same \<open>ctx\<close> as its caller.
\<close>

fun copyAll ::
  "'w env \<Rightarrow> EntryNode \<Rightarrow> string \<Rightarrow> bool \<Rightarrow> bool \<Rightarrow> 'w state \<Rightarrow>
     (int \<times> bool \<times> error option) \<times> 'w state"
and copyChildren ::
  "'w env \<Rightarrow> EntryNode list \<Rightarrow> string \<Rightarrow> bool \<Rightarrow> bool \<Rightarrow> int \<Rightarrow> bool \<Rightarrow> 'w state \<Rightarrow>
     (int \<times> bool \<times> error option) \<times> 'w state" where
  "copyAll env (EntryNode entry children) to override newParent st =
     (if ctxCanceled env (world st) then ((0, False, Some ErrorCanceled), st)
      else (case probeDst env to newParent (world st) of
              Inl e \<Rightarrow> ((0, False, Some e), st)
            | Inr dst \<Rightarrow>
                (case Type entry of
                   TypeDir \<Rightarrow>
                     (case prepareDir env entry to dst st of
                        (Inl e, st1) \<Rightarrow> ((0, False, Some e), st1)
                      | (Inr dirCreate, st1) \<Rightarrow>
                          (case copyChildren env children to override dirCreate 0 True st1 of
                             ((processed, allProcessed, Some e), st2) \<Rightarrow>
                               ((processed, False, Some e), st2)
                           | ((processed, allProcessed, None), st2) \<Rightarrow>
                               finishNode env entry allProcessed processed st2))
                 | TypeFile \<Rightarrow>
                     (case copyFile env entry to override dst 0 st of
                        (Inl r, st1) \<Rightarrow> (r, st1)
                      | (Inr u, st1) \<Rightarrow> finishNode env entry True 0 st1))))"
| "copyChildren env [] to override dirCreate processed allProcessed st =
     ((processed, allProcessed, None), st)"
| "copyChildren env (EntryNode e cs # es) to override dirCreate processed allProcessed st =
     (case copyAll env (EntryNode e cs) (joinPath to (Name e)) override dirCreate st of
        ((p, r, Some err), st1) \<Rightarrow> ((processed, False, Some err), st1)
      | ((p, r, None), st1) \<Rightarrow>
          copyChildren env es to override dirCreate (processed + p) (allProcessed \<and> r)
            (logEvent (EvProgress (processed + p)) st1))"

text \<open>
  The second phase of \<open>CopyAll\<close>, on the tree that \<open>BuildEntriesTree\<close> returned: the
  root is probed (\<open>newParent = false\<close>) and only the error is returned. The first
  phase lists the source and reports totals through \<open>ctx.Total\<close>; it makes no call of
  \<open>ctx.Progress\<close>.
\<close>

definition CopyAll ::
  "'w env \<Rightarrow> EntryNode \<Rightarrow> string \<Rightarrow> bool \<Rightarrow> 'w state \<Rightarrow> error option \<times> 'w state" where
  "CopyAll env tree to override st =
     (case copyAll env tree to override False st of
        ((processed, allProcessed, err), st') \<Rightarrow> (err, st'))"

text \<open>
  The errors that calls of the callback returned, in the order of the calls, and the
  shape of a run that a failing callback ends: no call of the callback before the last
  event failed, and an error of the callback is the error of the run.
\<close>

fun afterError :: "event \<Rightarrow> error option" where
  "afterError (EvAfter x allProcessed r) = r"
| "afterError ev = None"

definition afterErrors :: "event list \<Rightarrow> error list" where
  "afterErrors evs = List.map_filter afterError evs"

definition endsAtFailure :: "event list \<Rightarrow> error option \<Rightarrow> bool" where
  "endsAtFailure evs err =
     (afterErrors (butlast evs) = [] \<and> list_all (\<lambda>e. err = Some e) (afterErrors evs))"

text \<open>The counts passed to \<open>ctx.Progress\<close>, in the order of the calls.\<close>

fun progressCounts :: "event list \<Rightarrow> int list" where
  "progressCounts [] = []"
| "progressCounts (EvProgress n # evs) = n # progressCounts evs"
| "progressCounts (ev # evs) = progressCounts evs"

subsection \<open>An in-memory destination\<close>

text \<open>
  A concrete environment for running the model: the destination drive is a table from
  paths to objects, looked up by the whole path; the context carries a cancellation
  flag; staging a source file yields its path as its content; the callback is a
  parameter (\<open>CopyAll\<close> installs one that returns \<open>nil\<close> when the caller passes none).
\<close>

datatype obj = FileObj string | DirObj

record memWorld =
  files :: "(string \<times> obj) list"
  canceled :: bool

definition memGet :: "string \<Rightarrow> memWorld \<Rightarrow> error + EntryType" where
  "memGet p w =
     (case map_of (files w) p of
        None \<Rightarrow> Inl NotFoundError
      | Some (FileObj b) \<Rightarrow> Inr TypeFile
      | Some DirObj \<Rightarrow> Inr TypeDir)"

definition memEnv :: "(entry \<Rightarrow> bool \<Rightarrow> error option) \<Rightarrow> memWorld env" where
  "memEnv cb =
     \<lparr>ctxCanceled = canceled,
      driveGet = memGet,
      driveMakeDir = (\<lambda>p w. (None, w\<lparr>files := (p, DirObj) # files w\<rparr>)),
      driveSave = (\<lambda>p b w. (None, w\<lparr>files := (p, FileObj b) # files w\<rparr>)),
      stageContent = (\<lambda>e w. (Inr (Path e), w)),
      after = (\<lambda>e allProcessed w. (cb e allProcessed, w))\<rparr>"

definition noCallback :: "entry \<Rightarrow> bool \<Rightarrow> error option" where
  "noCallback e allProcessed = None"

definition failOn :: "string \<Rightarrow> entry \<Rightarrow> bool \<Rightarrow> error option" where
  "failOn name e allProcessed = (if Name e = name then Some (OtherError ''callback'') else None)"

definition fileEntry :: "string \<Rightarrow> entry" where
  "fileEntry name = \<lparr>Name = name, Path = ''src/'' @ name, Type = TypeFile, IsContent = True\<rparr>"

definition srcDir :: entry where
  "srcDir = \<lparr>Name = ''src'', Path = ''src'', Type = TypeDir, IsContent = False\<rparr>"

text \<open>A source directory with three files.\<close>

definition threeFiles :: EntryNode where
  "threeFiles =
     EntryNode srcDir
       [EntryNode (fileEntry ''a'') [], EntryNode (fileEntry ''b'') [],
        EntryNode (fileEntry ''c'') []]"

definition startState :: "(string \<times> obj) list \<Rightarrow> bool \<Rightarrow> memWorld state" where
  "startState fs c = \<lparr>world = \<lparr>files = fs, canceled = c\<rparr>, trace = []\<rparr>"

section \<open>Content delivery (common/drive_utils.go)\<close>

subsection \<open>The response writer\<close>

text \<open>
  \<open>http.ResponseWriter\<close> is Go's library interface. Its contract: \<open>Header()\<close> returns
  the header map that \<open>WriteHeader\<close> will send; \<open>WriteHeader\<close> sends the response
  header with the given status code; changing the header map after a call of
  \<open>WriteHeader\<close> (or \<open>Write\<close>) has no effect on the response; a second \<open>WriteHeader\<close> is
  ignored; the first \<open>Write\<close> sends the header with status 200 when none was sent. The
  model keeps the handler's map (\<open>header\<close>) apart from the header block that was sent
  (\<open>sentHeader\<close>).
\<close>

record response =
  header :: "string \<rightharpoonup> string"
  wroteHeader :: bool
  status :: int
  sentHeader :: "string \<rightharpoonup> string"
  body :: string

definition WriteHeader :: "int \<Rightarrow> response \<Rightarrow> response" where
  "WriteHeader code w =
     (if wroteHeader w then w
      else w\<lparr>wroteHeader := True, status := code, sentHeader := header w\<rparr>)"

definition HeaderSet :: "string \<Rightarrow> string \<Rightarrow> response \<Rightarrow> response" where
  "HeaderSet k v w = w\<lparr>header := (header w)(k \<mapsto> v)\<rparr>"

definition Write :: "string \<Rightarrow> response \<Rightarrow> response" where
  "Write bs w =
     (let w = (if wroteHeader w then w else WriteHeader 200 w)
      in w\<lparr>body := body w @ bs\<rparr>)"

definition newResponse :: response where
  "newResponse =
     \<lparr>header = Map.empty, wroteHeader = False, status = 0, sentHeader = Map.empty, body = []\<rparr>"

subsection \<open>Content\<close>

text \<open>
  Modelled from the spec: \<open>types.IContent\<close> is declared outside the sources. A content
  entry is an entry with a size and a modification time that optionally exposes a
  direct URL with its must-proxy flag (\<open>GetURL\<close>) and a readable stream (\<open>GetReader\<close>);
  a stream has its bytes, may support seeking, and may end in a read error.
\<close>

record reader =
  rdData :: string
  rdSeeker :: bool
  rdErr :: "error option"

record content = entry +
  Size :: int
  UpdatedAt :: int
  GetURL :: "error + string \<times> bool"
  GetReader :: "error + reader"

text \<open>
  The library calls that serve a request themselves (\<open>url.Parse\<close>, the reverse proxy
  and \<open>http.ServeContent\<close>) are parameters.
\<close>

record 'q httpEnv =
  parseURL :: "string \<Rightarrow> error + string"
  reverseProxy :: "string \<Rightarrow> 'q \<Rightarrow> response \<Rightarrow> response"
  serveContent :: "string \<Rightarrow> int \<Rightarrow> string \<Rightarrow> 'q \<Rightarrow> response \<Rightarrow> response"

text \<open>\<open>strconv.FormatInt(n, 10)\<close>.\<close>

fun digitsOf :: "nat \<Rightarrow> nat \<Rightarrow> string" where
  "digitsOf 0 n = []"
| "digitsOf (Suc fuel) n =
     (if n < 10 then [char_of (48 + n)]
      else digitsOf fuel (n div 10) @ [char_of (48 + n mod 10)])"

definition FormatInt :: "int \<Rightarrow> string" where
  "FormatInt n =
     (if n < 0 then CHR ''-'' # digitsOf (Suc (nat (- n))) (nat (- n))
      else digitsOf (Suc (nat n)) (nat n))"

definition DownloadIContent ::
  "'q httpEnv \<Rightarrow> content \<Rightarrow> response \<Rightarrow> 'q \<Rightarrow> error option \<times> response" where
  "DownloadIContent henv content w req =
     (case GetURL content of
        Inr (url, proxy) \<Rightarrow>
          (if proxy
           then (case parseURL henv url of
                   Inl e \<Rightarrow> (Some e, w)
                 | Inr dest \<Rightarrow> (None, reverseProxy henv dest req w))
           else (None, HeaderSet ''Location'' url (WriteHeader 302 w)))
      | Inl e0 \<Rightarrow>
          (case GetReader content of
             Inl e \<Rightarrow> (Some e, w)
           | Inr reader \<Rightarrow>
               (if rdSeeker reader
                then (None, serveContent henv (Name content) (UpdatedAt content)
                              (rdData reader) req w)
                else (let w = HeaderSet ''Content-Length'' (FormatInt (Size content)) w;
                          w = (if rdData reader = [] then w else Write (rdData reader) w)
                      in (rdErr reader, w)))))"

text \<open>A content entry with a direct URL that is not marked must-proxy.\<close>

definition urlContent :: content where
  "urlContent =
     \<lparr>Name = ''f'', Path = ''f'', Type = TypeFile, IsContent = True, Size = 3, UpdatedAt = 0,
      GetURL = Inr (''https://cdn.example/f'', False),
      GetReader = Inl UnsupportedError\<rparr>"

definition noHttp :: "unit httpEnv" where
  "noHttp =
     \<lparr>parseURL = (\<lambda>u. Inr u), reverseProxy = (\<lambda>dest req w. w),
      serveContent = (\<lambda>name modTime bytes req w. w)\<rparr>"

section \<open>The local file system drive (FsDrive)\<close>

subsection \<open>Paths\<close>

text \<open>
  \<open>filepath.Clean\<close> and \<open>filepath.Join\<close> of Go's library, for slash-separated paths:
  \<open>Clean\<close> drops empty and \<open>.\<close> elements, resolves \<open>..\<close> against the element before
  it (dropping it at the root), and returns \<open>.\<close> for an empty result; \<open>Join\<close> joins
  its non-empty arguments with a slash and cleans the result.
\<close>

fun splitSlash :: "string \<Rightarrow> string list" where
  "splitSlash [] = [[]]"
| "splitSlash (c # cs) =
     (if c = CHR ''/'' then [] # splitSlash cs
      else (case splitSlash cs of
              [] \<Rightarrow> [[c]]
            | s # ss \<Rightarrow> (c # s) # ss))"

fun joinSlash :: "string list \<Rightarrow> string" where
  "joinSlash [] = []"
| "joinSlash [s] = s"
| "joinSlash (s # ss) = s @ ''/'' @ joinSlash ss"

fun cleanElems :: "bool \<Rightarrow> string list \<Rightarrow> string list \<Rightarrow> string list" where
  "cleanElems rooted out [] = rev out"
| "cleanElems rooted out (s # ss) =
     (if s = [] \<or> s = ''.'' then cleanElems rooted out ss
      else if s = ''..'' then
        (case out of
           [] \<Rightarrow> if rooted then cleanElems rooted [] ss else cleanElems rooted [''..''] ss
         | t # ts \<Rightarrow>
             if t = ''..'' then cleanElems rooted (''..'' # out) ss
             else cleanElems rooted ts ss)
      else cleanElems rooted (s # out) ss)"

definition Clean :: "string \<Rightarrow> string" where
  "Clean p =
     (let rooted = (p \<noteq> [] \<and> hd p = CHR ''/'');
          r = (if rooted then ''/'' else []) @ joinSlash (cleanElems rooted [] (splitSlash p))
      in if r = [] then ''.'' else r)"

definition Join :: "string \<Rightarrow> string \<Rightarrow> string" where
  "Join a b =
     (let elems = filter (\<lambda>s. s \<noteq> []) [a, b]
      in if elems = [] then [] else Clean (joinSlash elems))"

subsection \<open>The operating system's files\<close>

text \<open>
  The files the drive works on: a table from absolute, clean paths to what \<open>os.Stat\<close>
  reports for them, the working directory that \<open>filepath.Abs\<close> resolves relative
  paths against, and the clock that stamps a new directory.
\<close>

record FileInfo =
  fiSize :: int
  fiIsDir :: bool
  fiModTime :: int

record osState =
  osFiles :: "(string \<times> FileInfo) list"
  osCwd :: string
  osClock :: int

definition Stat :: "string \<Rightarrow> osState \<Rightarrow> FileInfo option" where
  "Stat p os = map_of (osFiles os) p"

text \<open>
  Modelled from the spec: \<open>utils.FileExists\<close> is declared outside the sources; a
  path exists when it has a stat.
\<close>

definition FileExists :: "string \<Rightarrow> osState \<Rightarrow> bool" where
  "FileExists p os = (Stat p os \<noteq> None)"

definition Abs :: "string \<Rightarrow> osState \<Rightarrow> string" where
  "Abs p os = (if p \<noteq> [] \<and> hd p = CHR ''/'' then Clean p else Join (osCwd os) p)"

text \<open>
  \<open>os.Mkdir\<close> fails when the path exists or when its parent is not an existing
  directory, and makes an empty directory otherwise.
\<close>

definition Mkdir :: "string \<Rightarrow> osState \<Rightarrow> error + osState" where
  "Mkdir p os =
     (if Stat p os \<noteq> None then Inl (OtherError ''file exists'')
      else (case Stat (Clean (p @ ''/..'')) os of
              None \<Rightarrow> Inl (OtherError ''no such file or directory'')
            | Some parent \<Rightarrow>
                if fiIsDir parent
                then Inr (os\<lparr>osFiles :=
                       (p, \<lparr>fiSize = 0, fiIsDir = True, fiModTime = osClock os\<rparr>) # osFiles os\<rparr>)
                else Inl (OtherError ''not a directory'')))"

subsection \<open>The drive\<close>

record FsDrive =
  drivePath :: string

record fsFile =
  filePath :: string
  fileSize :: int
  fileIsDir :: bool
  fileModTime :: int

text \<open>What an entry shows of itself: \<open>Path()\<close>, \<open>Type()\<close> and \<open>Size()\<close>.\<close>

definition fsFile_Type :: "fsFile \<Rightarrow> EntryType" where
  "fsFile_Type f = (if fileIsDir f then TypeDir else TypeFile)"

definition fsFile_Size :: "fsFile \<Rightarrow> int" where
  "fsFile_Size f = (if fsFile_Type f = TypeDir then - 1 else fileSize f)"

text \<open>A panic is an error value too.\<close>

datatype failure = Err error | Panic string

definition HasPrefix :: "string \<Rightarrow> string \<Rightarrow> bool" where
  "HasPrefix s pre = (take (length pre) s = pre)"

definition stripSlashes :: "string \<Rightarrow> string" where
  "stripSlashes p = dropWhile (\<lambda>c. c = CHR ''/'') p"

definition newFsFile :: "FsDrive \<Rightarrow> string \<Rightarrow> FileInfo \<Rightarrow> osState \<Rightarrow> failure + fsFile" where
  "newFsFile f path file os =
     (let path = Abs path os
      in if \<not> HasPrefix path (drivePath f) then Inl (Panic ''invalid file key'')
         else (let path = map (\<lambda>c. if c = CHR 0x5C then CHR ''/'' else c) path;
                   path = drop (length (drivePath f)) path;
                   path = stripSlashes path
               in Inr \<lparr>filePath = path, fileSize = fiSize file, fileIsDir = fiIsDir file,
                        fileModTime = fiModTime file\<rparr>))"

definition getPath :: "FsDrive \<Rightarrow> string \<Rightarrow> string" where
  "getPath f path = Join (drivePath f) (Clean path)"

definition FsDrive_Get :: "FsDrive \<Rightarrow> string \<Rightarrow> osState \<Rightarrow> failure + fsFile" where
  "FsDrive_Get f path os =
     (let path = getPath f path
      in (case Stat path os of
            None \<Rightarrow> Inl (Err NotFoundError)
          | Some stat \<Rightarrow> newFsFile f path stat os))"

definition FsDrive_MakeDir ::
  "FsDrive \<Rightarrow> string \<Rightarrow> osState \<Rightarrow> (failure + fsFile) \<times> osState" where
  "FsDrive_MakeDir f path os =
     (let path = getPath f path
      in if FileExists path os then (FsDrive_Get f path os, os)
         else (case Mkdir path os of
                 Inl e \<Rightarrow> (Inl (Err e), os)
               | Inr os' \<Rightarrow>
                   (case Stat path os' of
                      None \<Rightarrow> (Inl (Err NotFoundError), os')
                    | Some stat \<Rightarrow> (newFsFile f path stat os', os'))))"

text \<open>A drive rooted at \<open>/data\<close> that holds the directory \<open>a\<close>.\<close>

definition dataDrive :: FsDrive where
  "dataDrive = \<lparr>drivePath = ''/data''\<rparr>"

definition dataFiles :: osState where
  "dataFiles =
     \<lparr>osFiles = [(''/data'', \<lparr>fiSize = 4096, fiIsDir = True, fiModTime = 1\<rparr>),
                 (''/data/a'', \<lparr>fiSize = 4096, fiIsDir = True, fiModTime = 2\<rparr>)],
      osCwd = ''/'', osClock = 3\<rparr>"

section \<open>Properties of the permission engine\<close>

lemmas resolve_eval = ResolveAcceptedPermissions_def sortSlice_def insertionSort_def
  pathPermissionLess_def IsForAnonymous_def IsForUser_def IsAccept_def IsReject_def
  resolveStep_def Let_def PermissionEmpty_def

subsection \<open>The comparison is a strict weak order\<close>

lemma pathPermissionLess_irrefl: "\<not> pathPermissionLess a a"
  by (simp add: pathPermissionLess_def)

lemma pathPermissionLess_trans:
  "pathPermissionLess a b \<Longrightarrow> pathPermissionLess b c \<Longrightarrow> pathPermissionLess a c"
  by (auto simp: pathPermissionLess_def split: if_splits)

lemma pathPermissionLess_negtrans:
  "\<not> pathPermissionLess a b \<Longrightarrow> \<not> pathPermissionLess b c \<Longrightarrow> \<not> pathPermissionLess a c"
  by (auto simp: pathPermissionLess_def split: if_splits)

text \<open>
  C7. The comparison ranks a higher depth first whatever the subjects are; at equal
  depth an Anonymous rule comes after every rule that is not Anonymous; at equal depth
  a User rule comes before a Group rule; and at equal depth and equal subject class the
  rule of lower policy comes first.
\<close>

theorem pathPermissionLess_order:
  "(Depth b < Depth a \<longrightarrow> pathPermissionLess a b \<and> \<not> pathPermissionLess b a) \<and>
   (Depth a = Depth b \<and> IsForAnonymous a \<and> \<not> IsForAnonymous b \<longrightarrow>
      pathPermissionLess b a \<and> \<not> pathPermissionLess a b) \<and>
   (Depth a = Depth b \<and> Subject a = User u \<and> Subject b = Group g \<longrightarrow>
      pathPermissionLess a b \<and> \<not> pathPermissionLess b a) \<and>
   (Depth a = Depth b \<and> IsForAnonymous a = IsForAnonymous b \<and> IsForUser a = IsForUser b \<longrightarrow>
      (pathPermissionLess a b \<longleftrightarrow> Policy a < Policy b))"
  by (auto simp: pathPermissionLess_def IsForAnonymous_def IsForUser_def)

theorem pathPermissionLess_order_witness:
  "(pathPermissionLess (hd exampleRules) (last exampleRules) \<and>
      \<not> pathPermissionLess (last exampleRules) (hd exampleRules)) \<and>
   (pathPermissionLess (userAccept 7 READ) acceptRead \<and>
      \<not> pathPermissionLess acceptRead (userAccept 7 READ)) \<and>
   (pathPermissionLess (userAccept 7 READ) groupReject \<and>
      \<not> pathPermissionLess groupReject (userAccept 7 READ)) \<and>
   (pathPermissionLess (userAccept 0 READ) (userAccept 1 WRITE) \<and>
      \<not> pathPermissionLess (userAccept 1 WRITE) (userAccept 0 READ))"
  using pathPermissionLess_order [where a = "hd exampleRules" and b = "last exampleRules"]
    pathPermissionLess_order [where a = acceptRead and b = "userAccept 7 READ"]
    pathPermissionLess_order [where a = "userAccept 7 READ" and b = groupReject and u = 1 and g = 1]
    pathPermissionLess_order [where a = "userAccept 0 READ" and b = "userAccept 1 WRITE"]
    pathPermissionLess_order [where a = "userAccept 1 WRITE" and b = "userAccept 0 READ"]
  by (simp add: exampleRules_def acceptRead_def userAccept_def groupReject_def
      IsForAnonymous_def IsForUser_def)

subsection \<open>The sort\<close>

lemma mset_insertBack: "mset (insertBack lt x rs) = add_mset x (mset rs)"
  by (induction rs) auto

lemma mset_fold_insertBack: "mset (fold (insertBack lt) xs rs) = mset xs + mset rs"
  by (induction xs arbitrary: rs) (auto simp: mset_insertBack)

lemma mset_insertionSort: "mset (insertionSort lt xs) = mset xs"
  by (simp add: insertionSort_def mset_fold_insertBack)

lemma set_insertBack: "set (insertBack lt x rs) = insert x (set rs)"
  by (induction rs) auto

text \<open>
  The prefix is held in reverse, so its order reads: no element is less than one that
  follows it in the reversed list.
\<close>

lemma sorted_insertBack:
  assumes irr: "\<And>a. \<not> lt a a"
    and tr: "\<And>a b c. lt a b \<Longrightarrow> lt b c \<Longrightarrow> lt a c"
    and nt: "\<And>a b c. \<not> lt a b \<Longrightarrow> \<not> lt b c \<Longrightarrow> \<not> lt a c"
  shows "sorted_wrt (\<lambda>a b. \<not> lt a b) rs \<Longrightarrow>
    sorted_wrt (\<lambda>a b. \<not> lt a b) (insertBack lt x rs)"
proof (induction rs)
  case Nil
  then show ?case by simp
next
  case (Cons y rs)
  show ?case
  proof (cases "lt x y")
    case True
    have "\<not> lt y x" using True irr tr by blast
    moreover have "\<forall>z\<in>set rs. \<not> lt y z" using Cons.prems by simp
    ultimately have "\<forall>z\<in>set (insertBack lt x rs). \<not> lt y z"
      by (simp add: set_insertBack)
    moreover have "sorted_wrt (\<lambda>a b. \<not> lt a b) (insertBack lt x rs)"
      using Cons by simp
    ultimately show ?thesis using True by simp
  next
    case False
    have "\<forall>z\<in>set rs. \<not> lt y z" using Cons.prems by simp
    then have "\<forall>z\<in>set rs. \<not> lt x z" using False nt by blast
    then show ?thesis using False Cons.prems by simp
  qed
qed

lemma sorted_fold_insertBack:
  assumes irr: "\<And>a. \<not> lt a a"
    and tr: "\<And>a b c. lt a b \<Longrightarrow> lt b c \<Longrightarrow> lt a c"
    and nt: "\<And>a b c. \<not> lt a b \<Longrightarrow> \<not> lt b c \<Longrightarrow> \<not> lt a c"
  shows "sorted_wrt (\<lambda>a b. \<not> lt a b) rs \<Longrightarrow>
    sorted_wrt (\<lambda>a b. \<not> lt a b) (fold (insertBack lt) xs rs)"
proof (induction xs arbitrary: rs)
  case Nil
  then show ?case by simp
next
  case (Cons x xs)
  have "sorted_wrt (\<lambda>a b. \<not> lt a b) (insertBack lt x rs)"
    by (rule sorted_insertBack [of lt, OF irr tr nt Cons.prems])
  then show ?case using Cons.IH by simp
qed

lemma inOrder_insertionSort:
  assumes irr: "\<And>a. \<not> lt a a"
    and tr: "\<And>a b c. lt a b \<Longrightarrow> lt b c \<Longrightarrow> lt a c"
    and nt: "\<And>a b c. \<not> lt a b \<Longrightarrow> \<not> lt b c \<Longrightarrow> \<not> lt a c"
  shows "inOrder lt (insertionSort lt xs)"
proof -
  have e: "sorted_wrt (\<lambda>a b. \<not> lt a b) []"
    by (rule sorted_wrt.simps(1) [THEN iffD2]) (rule TrueI)
  have "sorted_wrt (\<lambda>a b. \<not> lt a b) (fold (insertBack lt) xs [])"
    by (rule sorted_fold_insertBack [of lt, OF irr tr nt e])
  then show ?thesis
    by (simp add: inOrder_def insertionSort_def sorted_wrt_rev)
qed

lemma inOrder_sortSlice: "inOrder pathPermissionLess (sortSlice pathPermissionLess xs)"
  unfolding sortSlice_def
proof (rule inOrder_insertionSort)
  show "\<not> pathPermissionLess a a" for a :: "'a PathPermission"
    by (rule pathPermissionLess_irrefl)
  show "pathPermissionLess a b \<Longrightarrow> pathPermissionLess b c \<Longrightarrow> pathPermissionLess a c"
    for a b c :: "'a PathPermission"
    by (rule pathPermissionLess_trans)
  show "\<not> pathPermissionLess a b \<Longrightarrow> \<not> pathPermissionLess b c \<Longrightarrow> \<not> pathPermissionLess a c"
    for a b c :: "'a PathPermission"
    by (rule pathPermissionLess_negtrans)
qed

lemma mset_sortSlice: "mset (sortSlice lt xs) = mset xs"
  by (simp add: sortSlice_def mset_insertionSort)

lemma set_sortSlice: "set (sortSlice lt xs) = set xs"
  using mset_sortSlice [of lt xs] by (metis mset_eq_setD)

text \<open>A slice that is already in order is left as it is.\<close>

lemma fold_insertBack_inOrder:
  "sorted_wrt (\<lambda>a b. \<not> lt b a) (rev rs @ xs) \<Longrightarrow> fold (insertBack lt) xs rs = rev xs @ rs"
proof (induction xs arbitrary: rs)
  case Nil
  then show ?case by simp
next
  case (Cons x xs)
  have "insertBack lt x rs = x # rs"
  proof (cases rs)
    case Nil
    then show ?thesis by simp
  next
    case (Cons y ys)
    have "\<not> lt x y" using Cons.prems(1) Cons by (simp add: sorted_wrt_append)
    then show ?thesis using Cons by simp
  qed
  moreover have "sorted_wrt (\<lambda>a b. \<not> lt b a) (rev (x # rs) @ xs)"
    using Cons.prems by simp
  ultimately show ?case using Cons.IH [of "x # rs"] by simp
qed

lemma insertionSort_inOrder: "inOrder lt xs \<Longrightarrow> insertionSort lt xs = xs"
proof -
  assume "inOrder lt xs"
  then have "sorted_wrt (\<lambda>a b. \<not> lt b a) (rev [] @ xs)" by (simp add: inOrder_def)
  then have "fold (insertBack lt) xs [] = rev xs @ []" by (rule fold_insertBack_inOrder)
  then show ?thesis by (simp add: insertionSort_def)
qed

subsection \<open>The fold\<close>

text \<open>The Reject branch removes from the accepted mask only bits that are not in it.\<close>

lemma reject_noop: "(a::'a::len word) AND NOT (p AND NOT a) = a"
  by (rule bit_eqI) (auto simp: bit_simps)

lemma resolveStep_eq:
  "resolveStep item (a, r) =
     ((if IsAccept item then a OR (Permission item AND NOT r) else a),
      (if IsReject item then r OR Permission item else r))"
  by (simp add: resolveStep_def Let_def reject_noop)

text \<open>
  A bit is in the accepted mask after the loop exactly when it was there before, or
  it was not rejected before and some Accept rule carries it with no Reject rule for
  it at an earlier position.
\<close>

lemma resolveLoop_bit:
  "bit (fst (resolveLoop xs (a, r))) n \<longleftrightarrow>
     bit a n \<or>
     (\<not> bit r n \<and>
      (\<exists>i<length xs. IsAccept (xs ! i) \<and> bit (Permission (xs ! i)) n \<and>
         (\<forall>k<i. \<not> (IsReject (xs ! k) \<and> bit (Permission (xs ! k)) n))))"
proof (induction xs arbitrary: a r)
  case Nil
  then show ?case by simp
next
  case (Cons x xs)
  let ?a = "if IsAccept x then a OR (Permission x AND NOT r) else a"
  let ?r = "if IsReject x then r OR Permission x else r"
  let ?G = "\<lambda>ys i. IsAccept (ys ! i) \<and> bit (Permission (ys ! i)) n \<and>
         (\<forall>k<i. \<not> (IsReject (ys ! k) \<and> bit (Permission (ys ! k)) n))"
  have step: "resolveLoop (x # xs) (a, r) = resolveLoop xs (?a, ?r)"
    by (simp add: resolveStep_eq)
  have ex: "(\<exists>i<length (x # xs). ?G (x # xs) i) \<longleftrightarrow>
      (IsAccept x \<and> bit (Permission x) n) \<or>
      (\<not> (IsReject x \<and> bit (Permission x) n) \<and> (\<exists>i<length xs. ?G xs i))"
    (is "?L \<longleftrightarrow> ?R")
  proof
    assume ?L
    then obtain i where i: "i < length (x # xs)" "?G (x # xs) i" by blast
    show ?R
    proof (cases i)
      case 0
      then show ?thesis using i by simp
    next
      case (Suc j)
      have "\<not> (IsReject x \<and> bit (Permission x) n)" using i(2) Suc by auto
      moreover have "j < length xs" using i(1) Suc by simp
      moreover have "?G xs j" using i(2) Suc by auto
      ultimately show ?thesis by blast
    qed
  next
    assume ?R
    then show ?L
    proof
      assume "IsAccept x \<and> bit (Permission x) n"
      then have "?G (x # xs) 0" by simp
      then show ?L by blast
    next
      assume h: "\<not> (IsReject x \<and> bit (Permission x) n) \<and> (\<exists>i<length xs. ?G xs i)"
      then obtain j where j: "j < length xs" "?G xs j" by blast
      have "?G (x # xs) (Suc j)" using j(2) h by (auto simp: less_Suc_eq_0_disj)
      moreover have "Suc j < length (x # xs)" using j(1) by simp
      ultimately show ?L by blast
    qed
  qed
  have "bit (fst (resolveLoop (x # xs) (a, r))) n \<longleftrightarrow>
      bit ?a n \<or> (\<not> bit ?r n \<and> (\<exists>i<length xs. ?G xs i))"
    unfolding step by (rule Cons.IH)
  also have "\<dots> \<longleftrightarrow> bit a n \<or> (\<not> bit r n \<and> (\<exists>i<length (x # xs). ?G (x # xs) i))"
    unfolding ex by (auto simp: bit_simps dest: bit_imp_le_length)
  finally show ?case .
qed

lemma resolved_bit:
  "bit (snd (ResolveAcceptedPermissions items)) n \<longleftrightarrow>
     (\<exists>i<length (fst (ResolveAcceptedPermissions items)).
        IsAccept (fst (ResolveAcceptedPermissions items) ! i) \<and>
        bit (Permission (fst (ResolveAcceptedPermissions items) ! i)) n \<and>
        (\<forall>k<i. \<not> (IsReject (fst (ResolveAcceptedPermissions items) ! k) \<and>
                   bit (Permission (fst (ResolveAcceptedPermissions items) ! k)) n)))"
  by (simp add: ResolveAcceptedPermissions_def Let_def PermissionEmpty_def resolveLoop_bit)

lemma set_resolved: "set (fst (ResolveAcceptedPermissions items)) = set items"
  by (simp add: ResolveAcceptedPermissions_def Let_def set_sortSlice)

text \<open>
  C10. Every bit of the returned mask is a bit of the permission of some Accept rule
  of the input, and an input without Accept rules gives the empty mask.
\<close>

theorem accepted_bits_provenance:
  "(\<forall>n. bit (snd (ResolveAcceptedPermissions items)) n \<longrightarrow>
      (\<exists>r\<in>set items. IsAccept r \<and> bit (Permission r) n)) \<and>
   ((\<forall>r\<in>set items. \<not> IsAccept r) \<longrightarrow>
      snd (ResolveAcceptedPermissions items) = PermissionEmpty)"
proof -
  have prov: "\<exists>r\<in>set items. IsAccept r \<and> bit (Permission r) n"
    if "bit (snd (ResolveAcceptedPermissions items)) n" for n
  proof -
    let ?s = "fst (ResolveAcceptedPermissions items)"
    from that obtain i where i: "i < length ?s" "IsAccept (?s ! i)" "bit (Permission (?s ! i)) n"
      unfolding resolved_bit by blast
    have "?s ! i \<in> set items" using i(1) set_resolved [of items] nth_mem by blast
    then show ?thesis using i by blast
  qed
  have "snd (ResolveAcceptedPermissions items) = PermissionEmpty"
    if "\<forall>r\<in>set items. \<not> IsAccept r"
  proof (rule bit_eqI)
    fix n
    have "\<not> bit (snd (ResolveAcceptedPermissions items)) n" using prov that by blast
    then show "bit (snd (ResolveAcceptedPermissions items)) n \<longleftrightarrow> bit (PermissionEmpty :: 'a word) n"
      by (simp add: PermissionEmpty_def)
  qed
  then show ?thesis using prov by blast
qed

theorem accepted_bits_provenance_witness:
  "bit (snd (ResolveAcceptedPermissions exampleRules)) 1 \<and>
   (\<exists>r\<in>set exampleRules. IsAccept r \<and> bit (Permission r) 1) \<and>
   \<not> IsAccept rejectRead \<and> \<not> IsAccept groupReject \<and>
   snd (ResolveAcceptedPermissions [rejectRead, groupReject]) = PermissionEmpty"
proof -
  have h1: "bit (snd (ResolveAcceptedPermissions exampleRules)) 1"
    by (simp add: exampleRules_def READ_def WRITE_def resolve_eval)
  have h2: "\<forall>r\<in>set [rejectRead, groupReject]. \<not> IsAccept r"
    by (simp add: rejectRead_def groupReject_def IsAccept_def)
  have h3: "\<not> IsAccept rejectRead \<and> \<not> IsAccept groupReject"
    using h2 by simp
  show ?thesis
    using h1 h2 h3 accepted_bits_provenance [of exampleRules]
      accepted_bits_provenance [of "[rejectRead, groupReject]"]
    by blast
qed

text \<open>
  C1 (as the code has it). If a rule at position \<open>j\<close> of the sorted slice rejects bit
  \<open>X\<close> and the returned mask contains \<open>X\<close>, then \<open>X\<close> was granted at a position
  \<open>i \<le> j\<close> by an Accept rule met before any Reject rule for \<open>X\<close>; \<open>i < j\<close> unless the
  rejecting rule is itself an Accept rule. A Reject rule does not clear a bit accepted
  before it: on the two-rule example the result is \<open>READ OR WRITE\<close>.
\<close>

theorem reject_keeps_earlier_grant:
  assumes "j < length (fst (ResolveAcceptedPermissions items))"
    and "IsReject (fst (ResolveAcceptedPermissions items) ! j)"
    and "bit (Permission (fst (ResolveAcceptedPermissions items) ! j)) X"
    and "bit (snd (ResolveAcceptedPermissions items)) X"
  shows "(\<exists>i\<le>j. (i < j \<or> IsAccept (fst (ResolveAcceptedPermissions items) ! j)) \<and>
            IsAccept (fst (ResolveAcceptedPermissions items) ! i) \<and>
            bit (Permission (fst (ResolveAcceptedPermissions items) ! i)) X \<and>
            (\<forall>k<i. \<not> (IsReject (fst (ResolveAcceptedPermissions items) ! k) \<and>
                       bit (Permission (fst (ResolveAcceptedPermissions items) ! k)) X))) \<and>
         snd (ResolveAcceptedPermissions exampleRules) = READ OR WRITE"
proof -
  let ?s = "fst (ResolveAcceptedPermissions items)"
  from assms(4) obtain i where i: "i < length ?s" "IsAccept (?s ! i)"
      "bit (Permission (?s ! i)) X"
      "\<forall>k<i. \<not> (IsReject (?s ! k) \<and> bit (Permission (?s ! k)) X)"
    unfolding resolved_bit by blast
  have "\<not> j < i" using i(4) assms(2,3) by blast
  then have le: "i \<le> j" by simp
  have "i < j \<or> IsAccept (?s ! j)"
  proof (cases "i = j")
    case True
    then show ?thesis using i(2) by simp
  next
    case False
    then show ?thesis using le by simp
  qed
  then have "\<exists>i\<le>j. (i < j \<or> IsAccept (?s ! j)) \<and> IsAccept (?s ! i) \<and>
      bit (Permission (?s ! i)) X \<and>
      (\<forall>k<i. \<not> (IsReject (?s ! k) \<and> bit (Permission (?s ! k)) X))"
    using le i by blast
  moreover have "snd (ResolveAcceptedPermissions exampleRules) = READ OR WRITE"
    by (simp add: exampleRules_def READ_def WRITE_def resolve_eval)
  ultimately show ?thesis by blast
qed

theorem reject_keeps_earlier_grant_witness:
  "1 < length (fst (ResolveAcceptedPermissions exampleRules)) \<and>
   IsReject (fst (ResolveAcceptedPermissions exampleRules) ! 1) \<and>
   bit (Permission (fst (ResolveAcceptedPermissions exampleRules) ! 1)) 1 \<and>
   bit (snd (ResolveAcceptedPermissions exampleRules)) 1 \<and>
   (\<exists>i\<le>1. IsAccept (fst (ResolveAcceptedPermissions exampleRules) ! i) \<and>
      bit (Permission (fst (ResolveAcceptedPermissions exampleRules) ! i)) 1)"
proof -
  have s: "fst (ResolveAcceptedPermissions exampleRules) = exampleRules"
    by (simp add: exampleRules_def READ_def WRITE_def resolve_eval)
  have h1: "1 < length (fst (ResolveAcceptedPermissions exampleRules))"
    unfolding s by (simp add: exampleRules_def)
  have h2: "IsReject (fst (ResolveAcceptedPermissions exampleRules) ! 1)"
    unfolding s by (simp add: exampleRules_def IsReject_def)
  have h3: "bit (Permission (fst (ResolveAcceptedPermissions exampleRules) ! 1)) 1"
    unfolding s by (simp add: exampleRules_def WRITE_def)
  have h4: "bit (snd (ResolveAcceptedPermissions exampleRules)) 1"
    by (simp add: exampleRules_def READ_def WRITE_def resolve_eval)
  show ?thesis
    using h1 h2 h3 h4 reject_keeps_earlier_grant [OF h1 h2 h3 h4] by blast
qed

text \<open>
  On the two-rule example the deeper Accept rule is folded first and the Reject rule
  for \<open>WRITE\<close> that follows leaves the accepted mask as it is: the result is not
  \<open>READ\<close>.
\<close>

theorem permanent_reject_example_counterexample:
  "snd (ResolveAcceptedPermissions exampleRules) \<noteq> READ"
  by (simp add: exampleRules_def READ_def WRITE_def resolve_eval)

subsection \<open>Order of the input\<close>

lemma resolveStep_commute:
  assumes "IsAccept x = IsAccept u" "IsReject x = IsReject u"
  shows "resolveStep x (resolveStep u st) = resolveStep u (resolveStep x st)"
proof -
  obtain a r where st: "st = (a, r)" by (cases st)
  show ?thesis
    using assms unfolding st resolveStep_eq
    by (cases "IsAccept u"; cases "IsReject u") (auto simp: bit_eq_iff bit_simps)
qed

lemma resolveLoop_move_front:
  assumes "\<forall>u\<in>set us. IsAccept x = IsAccept u \<and> IsReject x = IsReject u"
  shows "resolveLoop (us @ x # vs) st = resolveLoop (x # us @ vs) st"
  using assms
proof (induction us arbitrary: st)
  case Nil
  then show ?case by simp
next
  case (Cons u us)
  have c: "resolveStep x (resolveStep u st) = resolveStep u (resolveStep x st)"
    using Cons.prems by (intro resolveStep_commute) simp_all
  have "resolveLoop ((u # us) @ x # vs) st = resolveLoop (us @ x # vs) (resolveStep u st)"
    by simp
  also have "\<dots> = resolveLoop (x # us @ vs) (resolveStep u st)"
  proof (rule Cons.IH)
    show "\<forall>u\<in>set us. IsAccept x = IsAccept u \<and> IsReject x = IsReject u"
      using Cons.prems by (meson list.set_intros(2))
  qed
  also have "\<dots> = resolveLoop (us @ vs) (resolveStep u (resolveStep x st))"
    by (simp add: c)
  also have "\<dots> = resolveLoop (x # (u # us) @ vs) st"
    by simp
  finally show ?case .
qed

text \<open>
  Two arrangements of the same rules that are both in order differ only inside groups
  of tied rules; when tied rules have the same mode the fold does not tell them apart.
\<close>

lemma resolveLoop_inOrder_perm:
  assumes "mset s1 = mset s2"
    and "inOrder pathPermissionLess s1" and "inOrder pathPermissionLess s2"
    and "\<forall>a\<in>set s1. \<forall>b\<in>set s1. tied a b \<longrightarrow>
           IsAccept a = IsAccept b \<and> IsReject a = IsReject b"
  shows "resolveLoop s1 st = resolveLoop s2 st"
  using assms
proof (induction s1 arbitrary: s2 st)
  case Nil
  then show ?case by simp
next
  case (Cons x s1)
  have sets: "set s2 = set (x # s1)"
    using Cons.prems(1) by (metis mset_eq_setD)
  then have "x \<in> set s2" by simp
  then obtain us vs where s2: "s2 = us @ x # vs" by (meson split_list)
  have ord2: "sorted_wrt (\<lambda>a b. \<not> pathPermissionLess b a) (us @ x # vs)"
    using Cons.prems(3) by (simp add: inOrder_def s2)
  have ord1: "sorted_wrt (\<lambda>a b. \<not> pathPermissionLess b a) (x # s1)"
    using Cons.prems(2) by (simp add: inOrder_def)
  have tie: "tied x u" if "u \<in> set us" for u
  proof -
    have a: "\<not> pathPermissionLess x u" using ord2 that by (simp add: sorted_wrt_append)
    have "u \<in> set (x # s1)" using that sets s2 by auto
    then have "u = x \<or> u \<in> set s1" by simp
    then have b: "\<not> pathPermissionLess u x"
    proof
      assume "u = x" then show ?thesis by (simp add: pathPermissionLess_irrefl)
    next
      assume "u \<in> set s1" then show ?thesis using ord1 by simp
    qed
    show ?thesis using a b by (simp add: tied_def)
  qed
  have modes: "\<forall>u\<in>set us. IsAccept x = IsAccept u \<and> IsReject x = IsReject u"
  proof
    fix u assume u: "u \<in> set us"
    then have "u \<in> set (x # s1)" using sets s2 by auto
    moreover have "x \<in> set (x # s1)" by simp
    ultimately show "IsAccept x = IsAccept u \<and> IsReject x = IsReject u"
      using Cons.prems(4) tie [OF u] by blast
  qed
  have m: "mset s1 = mset (us @ vs)" using Cons.prems(1) by (simp add: s2)
  have o1: "inOrder pathPermissionLess s1" using ord1 by (simp add: inOrder_def)
  have o2: "inOrder pathPermissionLess (us @ vs)"
    using ord2 by (simp add: inOrder_def sorted_wrt_append)
  have t: "\<forall>a\<in>set s1. \<forall>b\<in>set s1. tied a b \<longrightarrow>
      IsAccept a = IsAccept b \<and> IsReject a = IsReject b"
    using Cons.prems(4) by simp
  have "resolveLoop s2 st = resolveLoop (x # us @ vs) st"
    unfolding s2 by (rule resolveLoop_move_front [OF modes])
  also have "\<dots> = resolveLoop (us @ vs) (resolveStep x st)" by simp
  also have "\<dots> = resolveLoop s1 (resolveStep x st)"
    by (rule Cons.IH [OF m o1 o2 t, symmetric])
  finally show ?case by simp
qed

text \<open>
  C2 (as the code has it). Two input sequences that hold the same rules with the same
  multiplicities give the same mask, provided that rules which tie under the
  comparison (equal depth, subject class and policy) agree on \<open>IsAccept\<close> and on
  \<open>IsReject\<close>.
\<close>

theorem resolve_order_invariant:
  assumes "mset xs = mset ys"
    and "\<forall>a\<in>set xs. \<forall>b\<in>set xs. tied a b \<longrightarrow>
           IsAccept a = IsAccept b \<and> IsReject a = IsReject b"
  shows "snd (ResolveAcceptedPermissions xs) = snd (ResolveAcceptedPermissions ys)"
proof -
  let ?s1 = "sortSlice pathPermissionLess xs"
  let ?s2 = "sortSlice pathPermissionLess ys"
  have m: "mset ?s1 = mset ?s2" using assms(1) by (simp add: mset_sortSlice)
  have t: "\<forall>a\<in>set ?s1. \<forall>b\<in>set ?s1. tied a b \<longrightarrow>
      IsAccept a = IsAccept b \<and> IsReject a = IsReject b"
    using assms(2) by (simp add: set_sortSlice)
  have "resolveLoop ?s1 (PermissionEmpty, PermissionEmpty) =
      resolveLoop ?s2 (PermissionEmpty, PermissionEmpty)"
    by (rule resolveLoop_inOrder_perm [OF m inOrder_sortSlice inOrder_sortSlice t])
  then show ?thesis by (simp add: ResolveAcceptedPermissions_def Let_def)
qed

theorem resolve_order_invariant_witness:
  "mset [userAccept 0 WRITE, rejectRead, userAccept 0 READ] =
     mset [rejectRead, userAccept 0 READ, userAccept 0 WRITE] \<and>
   tied (userAccept 0 WRITE) (userAccept 0 READ) \<and>
   snd (ResolveAcceptedPermissions [userAccept 0 WRITE, rejectRead, userAccept 0 READ]) =
     snd (ResolveAcceptedPermissions [rejectRead, userAccept 0 READ, userAccept 0 WRITE])"
proof -
  have h1: "mset [userAccept 0 WRITE, rejectRead, userAccept 0 READ] =
     mset [rejectRead, userAccept 0 READ, userAccept 0 WRITE]"
    by simp
  have h2: "\<forall>a\<in>set [userAccept 0 WRITE, rejectRead, userAccept 0 READ].
      \<forall>b\<in>set [userAccept 0 WRITE, rejectRead, userAccept 0 READ].
        tied a b \<longrightarrow> IsAccept a = IsAccept b \<and> IsReject a = IsReject b"
    by (simp add: tied_def userAccept_def rejectRead_def pathPermissionLess_def
        IsForAnonymous_def IsForUser_def IsAccept_def IsReject_def)
  have h3: "tied (userAccept 0 WRITE) (userAccept 0 READ)"
    by (simp add: tied_def userAccept_def pathPermissionLess_def IsForAnonymous_def
        IsForUser_def)
  show ?thesis
    using h1 h3 resolve_order_invariant [OF h1 h2] by blast
qed

text \<open>
  An Accept rule and a Reject rule for \<open>READ\<close> that tie on depth, subject class and
  policy: the sort leaves each arrangement as it is, and the fold gives \<open>READ\<close> when the
  Accept rule is first and the empty mask when the Reject rule is first.
\<close>

theorem resolve_order_counterexample:
  "mset [acceptRead, rejectRead] = mset [rejectRead, acceptRead] \<and>
   snd (ResolveAcceptedPermissions [acceptRead, rejectRead]) = READ \<and>
   snd (ResolveAcceptedPermissions [rejectRead, acceptRead]) = PermissionEmpty \<and>
   snd (ResolveAcceptedPermissions [acceptRead, rejectRead]) \<noteq>
     snd (ResolveAcceptedPermissions [rejectRead, acceptRead])"
  by (simp add: acceptRead_def rejectRead_def READ_def resolve_eval)

text \<open>
  In particular the input order does not matter when the mode of a rule is a function
  of its policy, since tied rules have the same policy.
\<close>

lemma tied_Policy: "tied a b \<Longrightarrow> Policy a = Policy b"
  by (auto simp: tied_def pathPermissionLess_def split: if_splits)

lemma resolve_order_invariant_mode_of_policy:
  assumes "mset xs = mset ys"
    and "\<forall>a\<in>set xs. \<forall>b\<in>set xs. Policy a = Policy b \<longrightarrow>
           IsAccept a = IsAccept b \<and> IsReject a = IsReject b"
  shows "snd (ResolveAcceptedPermissions xs) = snd (ResolveAcceptedPermissions ys)"
proof -
  let ?s1 = "sortSlice pathPermissionLess xs"
  let ?s2 = "sortSlice pathPermissionLess ys"
  have m: "mset ?s1 = mset ?s2" using assms(1) by (simp add: mset_sortSlice)
  have t: "\<forall>a\<in>set ?s1. \<forall>b\<in>set ?s1. tied a b \<longrightarrow>
      IsAccept a = IsAccept b \<and> IsReject a = IsReject b"
    using assms(2) tied_Policy unfolding set_sortSlice by blast
  have "resolveLoop ?s1 (PermissionEmpty, PermissionEmpty) =
      resolveLoop ?s2 (PermissionEmpty, PermissionEmpty)"
    by (rule resolveLoop_inOrder_perm [OF m inOrder_sortSlice inOrder_sortSlice t])
  then show ?thesis by (simp add: ResolveAcceptedPermissions_def Let_def)
qed

text \<open>
  C9 (as the code has it). The call sorts the caller's slice in place: after the call
  the slice holds the same rules with the same multiplicities, arranged in the order of
  the comparison; a slice of at most twelve rules that was in that order already is
  left as it was.
\<close>

theorem resolve_sorts_callers_slice:
  "mset (fst (ResolveAcceptedPermissions items)) = mset items \<and>
   inOrder pathPermissionLess (fst (ResolveAcceptedPermissions items)) \<and>
   (length items \<le> 12 \<and> inOrder pathPermissionLess items \<longrightarrow>
      fst (ResolveAcceptedPermissions items) = items)"
  by (simp add: ResolveAcceptedPermissions_def Let_def mset_sortSlice inOrder_sortSlice)
    (simp add: sortSlice_def insertionSort_inOrder)

theorem resolve_sorts_callers_slice_witness:
  "inOrder pathPermissionLess exampleRules \<and>
   fst (ResolveAcceptedPermissions exampleRules) = exampleRules \<and>
   mset (fst (ResolveAcceptedPermissions (rev exampleRules))) = mset (rev exampleRules)"
proof -
  have h: "inOrder pathPermissionLess exampleRules"
    by (simp add: inOrder_def exampleRules_def pathPermissionLess_def)
  have l: "length exampleRules \<le> 12"
    by (simp add: exampleRules_def)
  show ?thesis
    using h l resolve_sorts_callers_slice [of exampleRules]
      resolve_sorts_callers_slice [of "rev exampleRules"]
    by blast
qed

text \<open>
  Called on the example rules in the opposite order, the call leaves the caller's
  slice rearranged.
\<close>

theorem resolve_purity_counterexample:
  "fst (ResolveAcceptedPermissions (rev exampleRules)) = exampleRules \<and>
   fst (ResolveAcceptedPermissions (rev exampleRules)) \<noteq> rev exampleRules"
  by (simp add: exampleRules_def READ_def WRITE_def resolve_eval)

section \<open>Properties of the copy engine\<close>

declare copyAll.simps [simp del] copyChildren.simps [simp del]

lemmas copy_eval = copyAll.simps copyChildren.simps probeDst_def prepareDir_def copyFile_def
  finishNode_def logEvent_def IsNotFoundError_def joinPath_def CopyAll_def memEnv_def
  memGet_def noCallback_def failOn_def fileEntry_def srcDir_def threeFiles_def startState_def

subsection \<open>Events of a run\<close>

lemma afterErrors_append: "afterErrors (xs @ ys) = afterErrors xs @ afterErrors ys"
  by (simp add: afterErrors_def List.map_filter_def)

lemma afterErrors_Nil_iff: "afterErrors xs = [] \<longleftrightarrow> (\<forall>x\<in>set xs. afterError x = None)"
  by (induction xs) (auto simp: afterErrors_def List.map_filter_def)

lemma afterErrors_butlast: "afterErrors xs = [] \<Longrightarrow> afterErrors (butlast xs) = []"
  unfolding afterErrors_Nil_iff by (meson in_set_butlastD)

lemma endsAtFailure_quiet: "afterErrors evs = [] \<Longrightarrow> endsAtFailure evs err"
  by (simp add: endsAtFailure_def afterErrors_butlast)

lemma endsAtFailure_None: "endsAtFailure evs None \<Longrightarrow> afterErrors evs = []"
  by (cases "afterErrors evs") (simp_all add: endsAtFailure_def)

lemma endsAtFailure_append:
  assumes "afterErrors evs1 = []" "endsAtFailure evs2 err"
  shows "endsAtFailure (evs1 @ evs2) err"
proof (cases "evs2 = []")
  case True
  then show ?thesis using assms(1) by (simp add: endsAtFailure_quiet)
next
  case False
  then have "butlast (evs1 @ evs2) = evs1 @ butlast evs2" by (simp add: butlast_append)
  then show ?thesis
    using assms by (simp add: endsAtFailure_def afterErrors_append)
qed

lemma prepareDir_trace:
  "\<exists>evs. trace (snd (prepareDir env entry to dst st)) = trace st @ evs \<and> afterErrors evs = []"
  by (auto simp: prepareDir_def logEvent_def afterErrors_def List.map_filter_def
      split: option.splits prod.splits)

lemma copyFile_trace:
  "\<exists>evs. trace (snd (copyFile env entry to override dst processed st)) = trace st @ evs \<and>
     afterErrors evs = []"
  by (auto simp: copyFile_def logEvent_def afterErrors_def List.map_filter_def
      split: option.splits prod.splits sum.splits)

lemma finishNode_cases:
  "(\<exists>e. fst (finishNode env entry allProcessed processed st) = (processed, False, Some e) \<and>
       trace (snd (finishNode env entry allProcessed processed st)) =
         trace st @ [EvAfter entry allProcessed (Some e)]) \<or>
   (fst (finishNode env entry allProcessed processed st) = (processed + 1, allProcessed, None) \<and>
       trace (snd (finishNode env entry allProcessed processed st)) =
         trace st @ [EvAfter entry allProcessed None, EvProgress (processed + 1)])"
  by (auto simp: finishNode_def logEvent_def split: option.splits prod.splits)

lemma finishNode_trace:
  "\<exists>evs. trace (snd (finishNode env entry allProcessed processed st)) = trace st @ evs \<and>
     endsAtFailure evs (snd (snd (fst (finishNode env entry allProcessed processed st))))"
  using finishNode_cases [of env entry allProcessed processed st]
  by (auto simp: endsAtFailure_def afterErrors_def List.map_filter_def)

text \<open>
  Every run extends the trace, and a failing call of the callback is the last event
  of the run and gives the error of the run.
\<close>

lemma copy_trace:
  "\<exists>evs. trace (snd (copyAll env node to override newParent st)) = trace st @ evs \<and>
     endsAtFailure evs (snd (snd (fst (copyAll env node to override newParent st))))"
  "\<exists>evs. trace (snd (copyChildren env nodes to override dirCreate processed allProcessed st)) =
       trace st @ evs \<and>
     endsAtFailure evs
       (snd (snd (fst (copyChildren env nodes to override dirCreate processed allProcessed st))))"
proof (induction env node to override newParent st
    and env nodes to override dirCreate processed allProcessed st
    rule: copyAll_copyChildren.induct)
  case (1 env entry children to override newParent st)
  let ?run = "copyAll env (EntryNode entry children) to override newParent st"
  show ?case
  proof (cases "ctxCanceled env (world st)")
    case True
    then have "trace (snd ?run) = trace st @ []" "snd (snd (fst ?run)) = Some ErrorCanceled"
      by (simp_all add: copyAll.simps)
    then show ?thesis using endsAtFailure_quiet [of "[]"] by (metis afterErrors_Nil_iff empty_iff list.set(1))
  next
    case nc: False
    show ?thesis
    proof (cases "probeDst env to newParent (world st)")
      case (Inl e)
      then have "trace (snd ?run) = trace st @ []" using nc by (simp add: copyAll.simps)
      then show ?thesis using endsAtFailure_quiet [of "[]"]
        by (metis afterErrors_Nil_iff empty_iff list.set(1))
    next
      case (Inr dst)
      show ?thesis
      proof (cases "Type entry")
        case TypeFile
        obtain res st1 where cf: "copyFile env entry to override dst 0 st = (res, st1)"
          by (cases "copyFile env entry to override dst 0 st")
        obtain evs1 where e1: "trace st1 = trace st @ evs1" "afterErrors evs1 = []"
          using copyFile_trace [of env entry to override dst 0 st] cf by auto
        show ?thesis
        proof (cases res)
          case (Inl r)
          then have "?run = (r, st1)" using nc Inr TypeFile cf by (simp add: copyAll.simps)
          then show ?thesis using e1 endsAtFailure_quiet by fastforce
        next
          case (Inr u)
          then have run: "?run = finishNode env entry True 0 st1"
            using nc \<open>probeDst env to newParent (world st) = Inr dst\<close> TypeFile cf
            by (simp add: copyAll.simps)
          obtain evs2 where e2: "trace (snd ?run) = trace st1 @ evs2"
              "endsAtFailure evs2 (snd (snd (fst ?run)))"
            using finishNode_trace [of env entry True 0 st1] run by auto
          have "trace (snd ?run) = trace st @ (evs1 @ evs2)" using e1 e2 by simp
          moreover have "endsAtFailure (evs1 @ evs2) (snd (snd (fst ?run)))"
            using e1(2) e2(2) by (rule endsAtFailure_append)
          ultimately show ?thesis by blast
        qed
      next
        case TypeDir
        obtain x st1 where pd: "prepareDir env entry to dst st = (x, st1)"
          by (cases "prepareDir env entry to dst st")
        obtain evs1 where e1: "trace st1 = trace st @ evs1" "afterErrors evs1 = []"
          using prepareDir_trace [of env entry to dst st] pd by auto
        show ?thesis
        proof (cases x)
          case (Inl e)
          then have "?run = ((0, False, Some e), st1)"
            using nc Inr TypeDir pd by (simp add: copyAll.simps)
          then show ?thesis using e1 endsAtFailure_quiet by fastforce
        next
          case (Inr dirCreate)
          let ?kids = "copyChildren env children to override dirCreate 0 True st1"
          obtain p ap errc st2 where ck: "?kids = ((p, ap, errc), st2)"
            by (metis prod_cases3 surj_pair)
          have "\<exists>evs. trace (snd ?kids) = trace st1 @ evs \<and>
              endsAtFailure evs (snd (snd (fst ?kids)))"
            using "1.IH" [OF nc \<open>probeDst env to newParent (world st) = Inr dst\<close> TypeDir
                pd [symmetric] Inr] .
          then obtain evs2 where e2: "trace st2 = trace st1 @ evs2" "endsAtFailure evs2 errc"
            using ck by auto
          show ?thesis
          proof (cases errc)
            case (Some e)
            then have "?run = ((p, False, Some e), st2)"
              using nc \<open>probeDst env to newParent (world st) = Inr dst\<close> TypeDir pd Inr ck
              by (simp add: copyAll.simps)
            moreover have "trace st2 = trace st @ (evs1 @ evs2)" using e1 e2 by simp
            moreover have "endsAtFailure (evs1 @ evs2) (Some e)"
              using e1(2) e2(2) Some by (simp add: endsAtFailure_append)
            ultimately show ?thesis by (metis fst_conv snd_conv)
          next
            case None
            then have run: "?run = finishNode env entry ap p st2"
              using nc \<open>probeDst env to newParent (world st) = Inr dst\<close> TypeDir pd Inr ck
              by (simp add: copyAll.simps)
            have q2: "afterErrors evs2 = []" using e2(2) None by (simp add: endsAtFailure_None)
            obtain evs3 where e3: "trace (snd ?run) = trace st2 @ evs3"
                "endsAtFailure evs3 (snd (snd (fst ?run)))"
              using finishNode_trace [of env entry ap p st2] run by auto
            have "trace (snd ?run) = trace st @ ((evs1 @ evs2) @ evs3)" using e1 e2 e3 by simp
            moreover have "afterErrors (evs1 @ evs2) = []"
              using e1(2) q2 by (simp add: afterErrors_append)
            then have "endsAtFailure ((evs1 @ evs2) @ evs3) (snd (snd (fst ?run)))"
              using e3(2) by (rule endsAtFailure_append)
            ultimately show ?thesis by blast
          qed
        qed
      qed
    qed
  qed
next
  case (2 env to override dirCreate processed allProcessed st)
  have "afterErrors [] = []" by (simp add: afterErrors_def List.map_filter_def)
  then have "endsAtFailure [] None" by (rule endsAtFailure_quiet)
  then show ?case by (simp add: copyChildren.simps)
next
  case (3 env e cs es to override dirCreate processed allProcessed st)
  let ?child = "copyAll env (EntryNode e cs) (joinPath to (Name e)) override dirCreate st"
  let ?run = "copyChildren env (EntryNode e cs # es) to override dirCreate processed allProcessed st"
  obtain p r errc st1 where ch: "?child = ((p, r, errc), st1)"
    by (metis prod_cases3 surj_pair)
  obtain evs1 where e1: "trace st1 = trace st @ evs1" "endsAtFailure evs1 errc"
    using "3.IH"(1) ch by auto
  show ?case
  proof (cases errc)
    case (Some err)
    then have "?run = ((processed, False, Some err), st1)"
      using ch by (simp add: copyChildren.simps)
    then show ?thesis using e1 Some by (metis fst_conv snd_conv)
  next
    case None
    let ?st = "logEvent (EvProgress (processed + p)) st1"
    let ?rest = "copyChildren env es to override dirCreate (processed + p) (allProcessed \<and> r) ?st"
    have run: "?run = ?rest" using ch None by (simp add: copyChildren.simps)
    have q1: "afterErrors evs1 = []" using e1(2) None by (simp add: endsAtFailure_None)
    have "\<exists>evs. trace (snd ?rest) = trace ?st @ evs \<and> endsAtFailure evs (snd (snd (fst ?rest)))"
      using "3.IH"(2) [OF ch [symmetric] refl refl None] .
    then obtain evs2 where e2: "trace (snd ?rest) = trace ?st @ evs2"
        "endsAtFailure evs2 (snd (snd (fst ?rest)))"
      by blast
    have "trace (snd ?run) = trace st @ ((evs1 @ [EvProgress (processed + p)]) @ evs2)"
      using run e1(1) e2(1) by (simp add: logEvent_def)
    moreover have "afterErrors (evs1 @ [EvProgress (processed + p)]) = []"
      using q1 by (simp add: afterErrors_append) (simp add: afterErrors_def List.map_filter_def)
    then have "endsAtFailure ((evs1 @ [EvProgress (processed + p)]) @ evs2) (snd (snd (fst ?rest)))"
      using e2(2) by (rule endsAtFailure_append)
    then have "endsAtFailure ((evs1 @ [EvProgress (processed + p)]) @ evs2) (snd (snd (fst ?run)))"
      by (simp only: run)
    ultimately show ?thesis by blast
  qed
qed

subsection \<open>The skip\<close>

lemma copyAll_skip:
  assumes "Type entry = TypeFile" "\<not> ctxCanceled env (world st)"
    and "probeDst env to newParent (world st) = Inr (Some TypeFile)" "\<not> override"
  shows "copyAll env (EntryNode entry children) to override newParent st = ((1, False, None), st)"
  using assms by (simp add: copyAll.simps copyFile_def)

lemma probeDst_probed:
  "\<not> newParent \<Longrightarrow> driveGet env to w = Inr t \<Longrightarrow> probeDst env to newParent w = Inr (Some t)"
  by (simp add: probeDst_def)

text \<open>
  C8 (as the code has it). For a file node whose destination is probed (\<open>newParent\<close> is
  false) and found to exist as a file, with \<open>override = false\<close> and a context that is
  not cancelled, \<open>copyAll\<close> returns no error, the count 1 and the flag false, and leaves
  the state as it was: the world is unchanged and no call is logged, so there is no
  \<open>Save\<close>.
\<close>

theorem skip_is_not_an_error:
  assumes "Type entry = TypeFile"
    and "driveGet env to (world st) = Inr TypeFile"
    and "\<not> override"
    and "\<not> newParent"
    and "\<not> ctxCanceled env (world st)"
  shows "copyAll env (EntryNode entry children) to override newParent st = ((1, False, None), st)"
  using assms by (simp add: copyAll_skip probeDst_probed)

theorem skip_is_not_an_error_witness:
  "copyAll (memEnv noCallback) (EntryNode (fileEntry ''a'') []) ''dst/a'' False False
     (startState [(''dst/a'', FileObj ''old'')] False) =
   ((1, False, None), startState [(''dst/a'', FileObj ''old'')] False)"
proof -
  let ?st = "startState [(''dst/a'', FileObj ''old'')] False"
  have h1: "Type (fileEntry ''a'') = TypeFile" by (simp add: fileEntry_def)
  have h2: "driveGet (memEnv noCallback) ''dst/a'' (world ?st) = Inr TypeFile"
    by (simp add: memEnv_def memGet_def startState_def)
  have h5: "\<not> ctxCanceled (memEnv noCallback) (world ?st)"
    by (simp add: memEnv_def startState_def)
  show ?thesis
    by (rule skip_is_not_an_error [OF h1 h2 _ _ h5]) simp_all
qed

text \<open>
  The same file node at the same existing destination: with a cancelled context the
  call returns \<open>ErrorCanceled\<close>; as the child of a freshly made directory
  (\<open>newParent = true\<close>) the destination is not probed and the file is saved over; and
  \<open>CopyAll\<close> reaches the second case on a destination that holds \<open>dst/a\<close> and no
  \<open>dst\<close>.
\<close>

theorem skip_counterexample:
  "driveGet (memEnv noCallback) ''dst/a''
     (world (startState [(''dst/a'', FileObj ''old'')] False)) = Inr TypeFile \<and>
   copyAll (memEnv noCallback) (EntryNode (fileEntry ''a'') []) ''dst/a'' False False
     (startState [(''dst/a'', FileObj ''old'')] True) =
   ((0, False, Some ErrorCanceled), startState [(''dst/a'', FileObj ''old'')] True) \<and>
   copyAll (memEnv noCallback) (EntryNode (fileEntry ''a'') []) ''dst/a'' False True
     (startState [(''dst/a'', FileObj ''old'')] False) =
   ((1, True, None),
    \<lparr>world = \<lparr>files = [(''dst/a'', FileObj ''src/a''), (''dst/a'', FileObj ''old'')],
               canceled = False\<rparr>,
     trace = [EvStage (fileEntry ''a''), EvSave ''dst/a'' ''src/a'',
              EvAfter (fileEntry ''a'') True None, EvProgress 1]\<rparr>) \<and>
   map_of (files (world (snd (CopyAll (memEnv noCallback) threeFiles ''dst'' False
     (startState [(''dst/a'', FileObj ''old'')] False))))) ''dst/a'' = Some (FileObj ''src/a'')"
  by (simp add: copy_eval)

subsection \<open>The callback\<close>

lemma afterErrors_mem: "x \<in> set xs \<Longrightarrow> afterError x = Some e \<Longrightarrow> e \<in> set (afterErrors xs)"
  by (induction xs) (auto simp: afterErrors_def List.map_filter_def)

lemma failure_is_last:
  assumes "endsAtFailure evs err" "i < length evs" "evs ! i = EvAfter x f (Some e)"
  shows "Suc i = length evs \<and> err = Some e"
proof -
  have ae: "afterError (evs ! i) = Some e" using assms(3) by simp
  have "\<not> Suc i < length evs"
  proof
    assume "Suc i < length evs"
    then have "i < length (butlast evs)" by simp
    then have "butlast evs ! i \<in> set (butlast evs)" by (rule nth_mem)
    moreover have "butlast evs ! i = evs ! i"
      using \<open>i < length (butlast evs)\<close> by (rule nth_butlast)
    moreover have "afterErrors (butlast evs) = []" using assms(1) by (simp add: endsAtFailure_def)
    ultimately have "afterError (evs ! i) = None" by (simp add: afterErrors_Nil_iff)
    then show False using ae by simp
  qed
  then have "Suc i = length evs" using assms(2) by simp
  moreover have "evs ! i \<in> set evs" using assms(2) by (rule nth_mem)
  then have "e \<in> set (afterErrors evs)" using ae by (rule afterErrors_mem)
  then have "err = Some e" using assms(1) by (simp add: endsAtFailure_def list_all_iff)
  ultimately show ?thesis by simp
qed

text \<open>A call that returns no error and did not skip ends with the callback and the report.\<close>

lemma copyAll_success_ends_with_callback:
  assumes run: "copyAll env (EntryNode entry children) to override newParent st = ((p, r, None), st')"
    and noskip: "\<not> (Type entry = TypeFile \<and>
        probeDst env to newParent (world st) = Inr (Some TypeFile) \<and> \<not> override)"
  shows "\<exists>evs. trace st' = trace st @ evs @ [EvAfter entry r None, EvProgress p]"
proof -
  have nc: "\<not> ctxCanceled env (world st)" using run by (auto simp: copyAll.simps)
  obtain dst where pr: "probeDst env to newParent (world st) = Inr dst"
    using run nc by (cases "probeDst env to newParent (world st)") (auto simp: copyAll.simps)
  show ?thesis
  proof (cases "Type entry")
    case TypeFile
    obtain res st1 where cf: "copyFile env entry to override dst 0 st = (res, st1)"
      by (cases "copyFile env entry to override dst 0 st")
    obtain evs1 where e1: "trace st1 = trace st @ evs1"
      using copyFile_trace [of env entry to override dst 0 st] cf by auto
    have "res = Inr ()"
    proof (cases res)
      case (Inl q)
      then have "q = (p, r, None)" using run nc pr TypeFile cf by (simp add: copyAll.simps)
      then have "dst = Some TypeFile \<and> \<not> override"
        using cf Inl
        by (cases dst; cases "the dst")
          (auto simp: copyFile_def split: if_splits prod.splits sum.splits option.splits)
      then show ?thesis using noskip TypeFile pr by simp
    next
      case (Inr u)
      then show ?thesis by simp
    qed
    then have fin: "finishNode env entry True 0 st1 = ((p, r, None), st')"
      using run nc pr TypeFile cf by (simp add: copyAll.simps)
    then have "fst (finishNode env entry True 0 st1) = (p, r, None)"
      "snd (finishNode env entry True 0 st1) = st'" by simp_all
    then have "trace st' = trace st1 @ [EvAfter entry r None, EvProgress p]"
      using finishNode_cases [of env entry True 0 st1] by auto
    then show ?thesis using e1 by simp
  next
    case TypeDir
    obtain x st1 where pd: "prepareDir env entry to dst st = (x, st1)"
      by (cases "prepareDir env entry to dst st")
    obtain evs1 where e1: "trace st1 = trace st @ evs1"
      using prepareDir_trace [of env entry to dst st] pd by auto
    obtain dirCreate where x: "x = Inr dirCreate"
      using run nc pr TypeDir pd by (cases x) (auto simp: copyAll.simps)
    let ?kids = "copyChildren env children to override dirCreate 0 True st1"
    obtain q ap errc st2 where ck: "?kids = ((q, ap, errc), st2)"
      by (metis prod_cases3 surj_pair)
    obtain evs2 where e2: "trace st2 = trace st1 @ evs2"
      using copy_trace(2) [of env children to override dirCreate 0 True st1] ck by auto
    have errc: "errc = None"
      using run nc pr TypeDir pd x ck by (cases errc) (auto simp: copyAll.simps)
    then have fin: "finishNode env entry ap q st2 = ((p, r, None), st')"
      using run nc pr TypeDir pd x ck by (simp add: copyAll.simps)
    then have "fst (finishNode env entry ap q st2) = (p, r, None)"
      "snd (finishNode env entry ap q st2) = st'" by simp_all
    then have "trace st' = trace st2 @ [EvAfter entry r None, EvProgress p]"
      using finishNode_cases [of env entry ap q st2] by auto
    then show ?thesis using e1 e2 by simp
  qed
qed

text \<open>
  C4 (as the code has it). For a call of \<open>copyAll\<close> on a node: when the node is a file
  whose probed destination exists as a file and \<open>override\<close> is false, the call returns
  at the skip, without an error and without invoking the callback (the state, and with
  it the trace, is unchanged); when the call returns no error and did not skip, its
  last two events are the callback, invoked with the entry and the fully-processed flag
  that the call returns, and then the report of the count; and a call of the callback
  that returns an error is the last event of the whole run, whose error it is.
\<close>

theorem callback_on_copied_nodes:
  assumes "copyAll env (EntryNode entry children) to override newParent st = ((p, r, err), st')"
  shows "(Type entry = TypeFile \<and> \<not> ctxCanceled env (world st) \<and>
            probeDst env to newParent (world st) = Inr (Some TypeFile) \<and> \<not> override \<longrightarrow>
            err = None \<and> st' = st) \<and>
         (err = None \<and> \<not> (Type entry = TypeFile \<and>
            probeDst env to newParent (world st) = Inr (Some TypeFile) \<and> \<not> override) \<longrightarrow>
            (\<exists>evs. trace st' = trace st @ evs @ [EvAfter entry r None, EvProgress p])) \<and>
         (\<forall>evs i x f e. trace st' = trace st @ evs \<and> i < length evs \<and>
            evs ! i = EvAfter x f (Some e) \<longrightarrow> Suc i = length evs \<and> err = Some e)"
proof (intro conjI impI allI)
  assume "Type entry = TypeFile \<and> \<not> ctxCanceled env (world st) \<and>
      probeDst env to newParent (world st) = Inr (Some TypeFile) \<and> \<not> override"
  then have "copyAll env (EntryNode entry children) to override newParent st =
      ((1, False, None), st)"
    by (simp add: copyAll_skip)
  then show "err = None" "st' = st" using assms by simp_all
next
  assume h: "err = None \<and> \<not> (Type entry = TypeFile \<and>
      probeDst env to newParent (world st) = Inr (Some TypeFile) \<and> \<not> override)"
  then have run: "copyAll env (EntryNode entry children) to override newParent st =
      ((p, r, None), st')"
    using assms by simp
  have noskip: "\<not> (Type entry = TypeFile \<and>
      probeDst env to newParent (world st) = Inr (Some TypeFile) \<and> \<not> override)"
    using h by (rule conjunct2)
  show "\<exists>evs. trace st' = trace st @ evs @ [EvAfter entry r None, EvProgress p]"
    by (rule copyAll_success_ends_with_callback [OF run noskip])
next
  fix evs i x f e
  assume h: "trace st' = trace st @ evs \<and> i < length evs \<and> evs ! i = EvAfter x f (Some e)"
  obtain evs0 where e0: "trace st' = trace st @ evs0" "endsAtFailure evs0 err"
    using copy_trace(1) [of env "EntryNode entry children" to override newParent st] assms
    by auto
  have "evs0 = evs" using e0(1) h by simp
  then have "endsAtFailure evs err" using e0(2) by simp
  then show "Suc i = length evs" "err = Some e"
    using failure_is_last [of evs err i x f e] h by simp_all
qed

theorem callback_on_copied_nodes_witness:
  "snd (copyAll (memEnv noCallback) (EntryNode (fileEntry ''a'') []) ''dst/a'' False False
          (startState [(''dst/a'', FileObj ''old'')] False)) =
     startState [(''dst/a'', FileObj ''old'')] False \<and>
   (\<exists>evs. trace (snd (copyAll (memEnv noCallback) (EntryNode (fileEntry ''a'') []) ''dst/a''
          False False (startState [] False))) =
      trace (startState [] False) @ evs @ [EvAfter (fileEntry ''a'') True None, EvProgress 1]) \<and>
   Suc 8 = length (trace (snd (copyAll (memEnv (failOn ''b'')) threeFiles ''dst'' False False
          (startState [] False)))) \<and>
   snd (snd (fst (copyAll (memEnv (failOn ''b'')) threeFiles ''dst'' False False
          (startState [] False)))) = Some (OtherError ''callback'')"
proof -
  let ?skip = "copyAll (memEnv noCallback) (EntryNode (fileEntry ''a'') []) ''dst/a'' False False
      (startState [(''dst/a'', FileObj ''old'')] False)"
  let ?copy = "copyAll (memEnv noCallback) (EntryNode (fileEntry ''a'') []) ''dst/a'' False False
      (startState [] False)"
  let ?fail = "copyAll (memEnv (failOn ''b'')) (EntryNode srcDir
       [EntryNode (fileEntry ''a'') [], EntryNode (fileEntry ''b'') [],
        EntryNode (fileEntry ''c'') []]) ''dst'' False False (startState [] False)"
  have r1: "?skip = ((fst (fst ?skip), fst (snd (fst ?skip)), snd (snd (fst ?skip))), snd ?skip)"
    by simp
  have r2: "?copy = ((1, True, None), snd ?copy)"
    by (simp add: copy_eval)
  have r3: "?fail = ((fst (fst ?fail), fst (snd (fst ?fail)), snd (snd (fst ?fail))), snd ?fail)"
    by simp
  have s1: "Type (fileEntry ''a'') = TypeFile \<and>
      \<not> ctxCanceled (memEnv noCallback) (world (startState [(''dst/a'', FileObj ''old'')] False)) \<and>
      probeDst (memEnv noCallback) ''dst/a'' False
        (world (startState [(''dst/a'', FileObj ''old'')] False)) = Inr (Some TypeFile) \<and>
      \<not> False"
    by (simp add: copy_eval)
  have s2: "None = None \<and> \<not> (Type (fileEntry ''a'') = TypeFile \<and>
      probeDst (memEnv noCallback) ''dst/a'' False (world (startState [] False)) =
        Inr (Some TypeFile) \<and> \<not> False)"
    by (simp add: copy_eval)
  have t3: "trace (snd ?fail) = trace (startState [] False) @ trace (snd ?fail)"
    by (simp add: startState_def)
  have s3: "8 < length (trace (snd ?fail)) \<and>
      trace (snd ?fail) ! 8 = EvAfter (fileEntry ''b'') True (Some (OtherError ''callback''))"
    by (simp add: copy_eval)
  have a: "snd ?skip = startState [(''dst/a'', FileObj ''old'')] False"
    using callback_on_copied_nodes [OF r1] s1 by blast
  have b: "\<exists>evs. trace (snd ?copy) =
      trace (startState [] False) @ evs @ [EvAfter (fileEntry ''a'') True None, EvProgress 1]"
    using callback_on_copied_nodes [OF r2] s2 by blast
  have c: "Suc 8 = length (trace (snd ?fail)) \<and>
      snd (snd (fst ?fail)) = Some (OtherError ''callback'')"
    using callback_on_copied_nodes [OF r3] t3 s3 by blast
  show ?thesis using a b c by (simp add: threeFiles_def)
qed

text \<open>
  Copying the three files into an existing directory that already holds \<open>dst/b\<close>, with
  \<open>override = false\<close>: the run succeeds, \<open>b\<close> is skipped and counted, and the callback
  is invoked for \<open>a\<close>, for \<open>c\<close> and for the directory, and not for \<open>b\<close>.
\<close>

theorem callback_skipped_counterexample:
  "copyAll (memEnv noCallback) threeFiles ''dst'' False False
     (startState [(''dst'', DirObj), (''dst/b'', FileObj ''old'')] False) =
   ((4, False, None),
    \<lparr>world = \<lparr>files = [(''dst/c'', FileObj ''src/c''), (''dst/a'', FileObj ''src/a''),
                        (''dst'', DirObj), (''dst/b'', FileObj ''old'')],
               canceled = False\<rparr>,
     trace = [EvStage (fileEntry ''a''), EvSave ''dst/a'' ''src/a'',
              EvAfter (fileEntry ''a'') True None, EvProgress 1, EvProgress 1,
              EvProgress 2,
              EvStage (fileEntry ''c''), EvSave ''dst/c'' ''src/c'',
              EvAfter (fileEntry ''c'') True None, EvProgress 1, EvProgress 3,
              EvAfter srcDir False None, EvProgress 4]\<rparr>)"
  by (simp add: copy_eval)

subsection \<open>The progress reports\<close>

text \<open>
  C3. Copying a directory with three files to a destination that does not exist:
  the run succeeds and the counts passed to \<open>ctx.Progress\<close> are 1, 1, 1, 2, 1, 3, 4.
  Each file's call reports its own count 1 to the context it shares with the
  directory's call, which reports the running count after each child, so the report
  that follows 2 is 1.
\<close>

theorem progress_counts_three_files:
  "fst (CopyAll (memEnv noCallback) threeFiles ''dst'' False (startState [] False)) = None \<and>
   progressCounts (trace (snd (CopyAll (memEnv noCallback) threeFiles ''dst'' False
     (startState [] False)))) = [1, 1, 1, 2, 1, 3, 4] \<and>
   \<not> sorted (progressCounts (trace (snd (CopyAll (memEnv noCallback) threeFiles ''dst'' False
     (startState [] False)))))"
  by (simp add: copy_eval)

section \<open>Properties of content delivery\<close>

lemma redirect_branch:
  "GetURL content = Inr (url, False) \<Longrightarrow>
   DownloadIContent henv content w req = (None, HeaderSet ''Location'' url (WriteHeader 302 w))"
  by (simp add: DownloadIContent_def)

lemma redirect_sent_header:
  "GetURL content = Inr (url, False) \<Longrightarrow> \<not> wroteHeader w \<Longrightarrow>
   sentHeader (snd (DownloadIContent henv content w req)) = header w \<and>
   header (snd (DownloadIContent henv content w req)) = (header w)(''Location'' \<mapsto> url)"
  by (simp add: redirect_branch WriteHeader_def HeaderSet_def)

text \<open>
  C6. On a new response writer, for a content entry with a direct URL that is not
  marked must-proxy: the call returns \<open>nil\<close>, the status sent is 302 and no body byte
  is written; the \<open>Location\<close> entry is put into the handler's header map after
  \<open>WriteHeader(302)\<close> has sent the header, so the header that was sent has no
  \<open>Location\<close>.
\<close>

theorem redirect_header_order:
  "fst (DownloadIContent noHttp urlContent newResponse ()) = None \<and>
   status (snd (DownloadIContent noHttp urlContent newResponse ())) = 302 \<and>
   body (snd (DownloadIContent noHttp urlContent newResponse ())) = [] \<and>
   header (snd (DownloadIContent noHttp urlContent newResponse ())) ''Location'' =
     Some ''https://cdn.example/f'' \<and>
   sentHeader (snd (DownloadIContent noHttp urlContent newResponse ())) ''Location'' = None"
  by (simp add: DownloadIContent_def urlContent_def newResponse_def WriteHeader_def HeaderSet_def)

section \<open>Properties of the file system drive\<close>

lemmas fs_eval = FsDrive_MakeDir_def FsDrive_Get_def getPath_def newFsFile_def Join_def
  Clean_def Abs_def Mkdir_def FileExists_def Stat_def stripSlashes_def HasPrefix_def
  dataDrive_def dataFiles_def Let_def

text \<open>On an existing path \<open>MakeDir\<close> hands \<open>Get\<close> the path it has resolved already.\<close>

lemma makeDir_existing:
  "FileExists (getPath f path) os \<Longrightarrow>
   FsDrive_MakeDir f path os = (FsDrive_Get f (getPath f path) os, os)"
  by (simp add: FsDrive_MakeDir_def Let_def)

lemma getPath_twice: "getPath dataDrive (getPath dataDrive ''a'') = ''/data/data/a''"
  by (simp add: getPath_def Join_def Clean_def dataDrive_def Let_def)

text \<open>
  C5. On the drive rooted at \<open>/data\<close>, where the directory \<open>a\<close> exists: \<open>Get\<close> of
  \<open>a\<close> returns the entry of the directory, and \<open>MakeDir\<close> of \<open>a\<close> returns a
  not-found error, because \<open>Get\<close> resolves the resolved path \<open>/data/a\<close> once more, to
  \<open>/data/data/a\<close>. Nothing is created.
\<close>

theorem makeDir_existing_not_found:
  "FileExists (getPath dataDrive ''a'') dataFiles \<and>
   FsDrive_Get dataDrive ''a'' dataFiles =
     Inr \<lparr>filePath = ''a'', fileSize = 4096, fileIsDir = True, fileModTime = 2\<rparr> \<and>
   FsDrive_MakeDir dataDrive ''a'' dataFiles = (Inl (Err NotFoundError), dataFiles)"
  by (simp add: fs_eval)

end
